theory Spec2Isabelle
  imports Complex_Main "HOL-Library.AList" "HOL-Library.List_Lexorder" "HOL-Library.Char_ord"
begin

section \<open>JavaScript collections\<close>

text \<open>
  The engine (src/src/lib/graphAnalysis.ts) keeps its tables in JavaScript \<open>Map\<close>s and
  \<open>Set\<close>s, which iterate in insertion order. A \<open>Set\<close> is modelled as a list that
  \<open>set_add\<close> keeps free of duplicates, a \<open>Map\<close> as an association list in which
  \<open>map_set\<close> overwrites an existing key in place and appends a new one at the end.
  Account identifiers are strings; JavaScript numbers holding amounts and scores are
  modelled as reals, epoch milliseconds as integers, counters as naturals. The engine
  branches on a number computed in floating point at one place, the payroll test of
  \<open>filterFalsePositives\<close>; the outcome of that test is an argument of the model. The
  other numbers computed from amounts and scores (the totals of a node, the risk score of
  a ring) are stored and emitted but never tested, and are written over the reals.
\<close>

type_synonym account_id = string

definition set_add :: "'a list \<Rightarrow> 'a \<Rightarrow> 'a list" where
  "set_add s x = (if x \<in> set s then s else s @ [x])"

text \<open>\<open>new Set(array)\<close>\<close>

definition set_of_array :: "'a list \<Rightarrow> 'a list" where
  "set_of_array xs = fold (\<lambda>x s. set_add s x) xs []"

definition map_has :: "('k \<times> 'v) list \<Rightarrow> 'k \<Rightarrow> bool" where
  "map_has m k = (map_of m k \<noteq> None)"

definition map_set :: "('k \<times> 'v) list \<Rightarrow> 'k \<Rightarrow> 'v \<Rightarrow> ('k \<times> 'v) list" where
  "map_set m k v = AList.update k v m"

text \<open>
  A mutation of the object stored under a key (\<open>m.get(k)!.field = ...\<close>) rewrites
  that entry where it stands.
\<close>

definition map_mutate :: "'k \<Rightarrow> ('v \<Rightarrow> 'v) \<Rightarrow> ('k \<times> 'v) list \<Rightarrow> ('k \<times> 'v) list" where
  "map_mutate k f m = AList.map_entry k f m"

text \<open>\<open>if (!m.has(k)) m.set(k, []); m.get(k)!.push(v)\<close>\<close>

definition push_to :: "('k \<times> 'v list) list \<Rightarrow> 'k \<Rightarrow> 'v \<Rightarrow> ('k \<times> 'v list) list" where
  "push_to m k v = map_mutate k (\<lambda>xs. xs @ [v]) (if map_has m k then m else map_set m k [])"

text \<open>\<open>adjacency.get(id) ?? new Set()\<close>\<close>

definition neighborsOf :: "(account_id \<times> account_id list) list \<Rightarrow> account_id \<Rightarrow> account_id list" where
  "neighborsOf adjacency current = (case map_of adjacency current of None \<Rightarrow> [] | Some s \<Rightarrow> s)"

section \<open>Data model (src/src/types/index.ts)\<close>

text \<open>
  Of a \<open>Transaction\<close> the engine reads every field but the textual timestamp, which is
  left out. Field names shared by two interfaces of the source are told apart by a prefix:
  \<open>edge_amount\<close> is \<open>GraphEdge.amount\<close>, \<open>account_ring_id\<close> is
  \<open>SuspiciousAccount.ring_id\<close>, \<open>node_id\<close> is \<open>GraphNode.id\<close>, and the fields of the
  object \<open>buildGraph\<close> returns carry the prefix \<open>graph_\<close>, those of the result
  that name the graph the prefix \<open>result_\<close>.
\<close>

record Transaction =
  transaction_id :: string
  sender_id :: account_id
  receiver_id :: account_id
  amount :: real
  timestampMs :: int

datatype PatternType = cycle_length nat | fan_in | fan_out | shell_chain | high_velocity

record GraphNode =
  node_id :: account_id
  totalTransactions :: nat
  totalSent :: real
  totalReceived :: real
  uniqueSenders :: "account_id list"
  uniqueReceivers :: "account_id list"
  isSuspicious :: bool
  suspicionScore :: real
  detectedPatterns :: "PatternType list"
  ringId :: "string option"

record GraphEdge =
  source :: account_id
  target :: account_id
  edge_amount :: real
  timestamp :: int
  transactionId :: string

datatype RingPattern = ring_cycle | ring_fan_in | ring_fan_out | ring_shell_chain

record FraudRing =
  ring_id :: string
  member_accounts :: "account_id list"
  pattern_type :: RingPattern
  risk_score :: real

record SuspiciousAccount =
  account_id :: account_id
  suspicion_score :: real
  detected_patterns :: "PatternType list"
  account_ring_id :: "string option"

record AnalysisSummary =
  total_accounts_analyzed :: nat
  suspicious_accounts_flagged :: nat
  fraud_rings_detected :: nat
  processing_time_seconds :: real

record AnalysisResult =
  suspicious_accounts :: "SuspiciousAccount list"
  fraud_rings :: "FraudRing list"
  summary :: AnalysisSummary
  result_nodes :: "(account_id \<times> GraphNode) list"
  result_edges :: "GraphEdge list"

section \<open>Graph building (buildGraph)\<close>

record Graph =
  graph_nodes :: "(account_id \<times> GraphNode) list"
  graph_edges :: "GraphEdge list"
  graph_adjacency :: "(account_id \<times> account_id list) list"
  graph_reverseAdj :: "(account_id \<times> account_id list) list"

definition ensureNode :: "(account_id \<times> GraphNode) list \<Rightarrow> account_id \<Rightarrow> (account_id \<times> GraphNode) list" where
  "ensureNode ns i =
     (if map_has ns i then ns
      else map_set ns i
        \<lparr>node_id = i, totalTransactions = 0, totalSent = 0, totalReceived = 0,
         uniqueSenders = [], uniqueReceivers = [], isSuspicious = False,
         suspicionScore = 0, detectedPatterns = [], ringId = None\<rparr>)"

text \<open>
  One turn of the loop over the transactions. When sender and receiver are the same
  account both names denote one node object; the two mutations are applied one after the
  other to the entry under the key, as the source applies them to the object.
\<close>

definition addTransaction :: "Transaction \<Rightarrow> Graph \<Rightarrow> Graph" where
  "addTransaction tx g =
     (let ns1 = ensureNode (ensureNode (graph_nodes g) (sender_id tx)) (receiver_id tx);
          ns2 = map_mutate (sender_id tx)
                  (\<lambda>n. n\<lparr>totalTransactions := totalTransactions n + 1,
                          totalSent := totalSent n + amount tx,
                          uniqueReceivers := set_add (uniqueReceivers n) (receiver_id tx)\<rparr>) ns1;
          ns3 = map_mutate (receiver_id tx)
                  (\<lambda>n. n\<lparr>totalTransactions := totalTransactions n + 1,
                          totalReceived := totalReceived n + amount tx,
                          uniqueSenders := set_add (uniqueSenders n) (sender_id tx)\<rparr>) ns2;
          es = graph_edges g @
                 [\<lparr>source = sender_id tx, target = receiver_id tx, edge_amount = amount tx,
                   timestamp = timestampMs tx, transactionId = transaction_id tx\<rparr>];
          adj = map_mutate (sender_id tx) (\<lambda>s. set_add s (receiver_id tx))
                  (if map_has (graph_adjacency g) (sender_id tx) then graph_adjacency g
                   else map_set (graph_adjacency g) (sender_id tx) []);
          radj = map_mutate (receiver_id tx) (\<lambda>s. set_add s (sender_id tx))
                  (if map_has (graph_reverseAdj g) (receiver_id tx) then graph_reverseAdj g
                   else map_set (graph_reverseAdj g) (receiver_id tx) [])
      in \<lparr>graph_nodes = ns3, graph_edges = es, graph_adjacency = adj, graph_reverseAdj = radj\<rparr>)"

definition buildGraph :: "Transaction list \<Rightarrow> Graph" where
  "buildGraph transactions =
     fold addTransaction transactions
       \<lparr>graph_nodes = [], graph_edges = [], graph_adjacency = [], graph_reverseAdj = []\<rparr>"

text \<open>\<open>[...edges].sort((a, b) => a.timestamp - b.timestamp)\<close>, a stable sort.\<close>

definition edgesByTime :: "Graph \<Rightarrow> GraphEdge list" where
  "edgesByTime g = sort_key timestamp (graph_edges g)"

section \<open>Cycle detection (detectCycles)\<close>

text \<open>\<open>[...cycle].sort().join('|')\<close>: the members sorted as strings, joined by a bar.\<close>

fun join :: "string \<Rightarrow> string list \<Rightarrow> string" where
  "join sep [] = []"
| "join sep [x] = x"
| "join sep (x # y # ys) = x @ sep @ join sep (y # ys)"

definition cycleKey :: "account_id list \<Rightarrow> string" where
  "cycleKey cycle = join ''|'' (sort cycle)"

text \<open>
  The state the DFS threads through every call: \<open>seenCycles\<close> and \<open>cycles\<close>. The
  \<open>path\<close> and the \<open>visited\<close> set are restored after each recursive call
  (\<open>path.pop()\<close>, \<open>visited.delete(neighbor)\<close>), so they are arguments.
\<close>

type_synonym cycle_state = "string list \<times> account_id list list"

definition recordCycle :: "account_id list \<Rightarrow> cycle_state \<Rightarrow> cycle_state" where
  "recordCycle path st =
     (let key = cycleKey path in
      if key \<in> set (fst st) then st else (fst st @ [key], snd st @ [path]))"

function dfs :: "(account_id \<times> account_id list) list \<Rightarrow> account_id \<Rightarrow> account_id \<Rightarrow> nat
      \<Rightarrow> account_id list \<Rightarrow> account_id list \<Rightarrow> cycle_state \<Rightarrow> cycle_state"
  and dfs_neighbors :: "(account_id \<times> account_id list) list \<Rightarrow> account_id \<Rightarrow> nat
      \<Rightarrow> account_id list \<Rightarrow> account_id list \<Rightarrow> account_id list \<Rightarrow> cycle_state \<Rightarrow> cycle_state"
  where
  "dfs adjacency start current depth path visited st =
     (if depth > 5 then st
      else dfs_neighbors adjacency start depth path visited (neighborsOf adjacency current) st)"
| "dfs_neighbors adjacency start depth path visited [] st = st"
| "dfs_neighbors adjacency start depth path visited (neighbor # rest) st =
     (if neighbor = start \<and> depth \<ge> 3
      then dfs_neighbors adjacency start depth path visited rest (recordCycle path st)
      else if neighbor \<notin> set visited \<and> depth < 5
      then dfs_neighbors adjacency start depth path visited rest
             (dfs adjacency start neighbor (depth + 1) (path @ [neighbor]) (visited @ [neighbor]) st)
      else dfs_neighbors adjacency start depth path visited rest st)"
  by pat_completeness auto
termination
  by (relation "measures
        [\<lambda>x. case x of Inl (a, s, c, d, p, v, st) \<Rightarrow> 2 * (6 - d) + 1 | Inr (a, s, d, p, v, ns, st) \<Rightarrow> 2 * (6 - d),
         \<lambda>x. case x of Inl (a, s, c, d, p, v, st) \<Rightarrow> 0 | Inr (a, s, d, p, v, ns, st) \<Rightarrow> length ns]")
     auto

declare dfs.simps [simp del]

definition detectCycles :: "(account_id \<times> account_id list) list \<Rightarrow> account_id list \<Rightarrow> account_id list list" where
  "detectCycles adjacency nodeIds =
     snd (fold (\<lambda>start st. dfs adjacency start start 1 [start] [start] st) nodeIds ([], []))"

section \<open>Smurfing detection (detectSmurfing)\<close>

definition SMURF_THRESHOLD :: nat where
  "SMURF_THRESHOLD = 10"

definition SMURF_WINDOW_MS :: int where
  "SMURF_WINDOW_MS = 72 * 60 * 60 * 1000"

text \<open>
  \<open>while (sorted[right].timestamp - sorted[left].timestamp > window) left++\<close>, over the
  timestamps of the sorted array. The source has no bound on \<open>left\<close>: the loop stops
  at \<open>left = right\<close> at the latest, where the difference is zero. The guard
  \<open>left < right\<close> states that bound, which the recursion needs to be total; lemma
  \<open>advanceLeft_guard\<close> below shows it changes nothing while \<open>left \<le> right\<close>.
\<close>

function advanceLeft :: "int \<Rightarrow> int list \<Rightarrow> nat \<Rightarrow> nat \<Rightarrow> nat" where
  "advanceLeft width timestamps right left =
     (if left < right \<and> timestamps ! right - timestamps ! left > width
      then advanceLeft width timestamps right (left + 1) else left)"
  by pat_completeness auto
termination
  by (relation "measure (\<lambda>(w, ts, r, l). r - l)") auto

declare advanceLeft.simps [simp del]

text \<open>
  The loop over \<open>right\<close> of one account, with its \<open>break\<close>: True when some window
  \<open>sorted.slice(left, right + 1)\<close> holds at least \<open>SMURF_THRESHOLD\<close> distinct
  counterparties. The fan-in half reads the counterparty with \<open>source\<close>, the fan-out half
  with \<open>target\<close>; the two loops of the source are otherwise the same text.
\<close>

function smurfWindow :: "(GraphEdge \<Rightarrow> account_id) \<Rightarrow> GraphEdge list \<Rightarrow> nat \<Rightarrow> nat \<Rightarrow> bool" where
  "smurfWindow counterparty sortedEdges left right =
     (if right < length sortedEdges then
        (let left' = advanceLeft SMURF_WINDOW_MS (map timestamp sortedEdges) right left;
             window = take (right + 1 - left') (drop left' sortedEdges);
             unique = set_of_array (map counterparty window)
         in if length unique \<ge> SMURF_THRESHOLD then True
            else smurfWindow counterparty sortedEdges left' (right + 1))
      else False)"
  by pat_completeness auto
termination
  by (relation "measure (\<lambda>(c, es, l, r). length es - r)") auto

declare smurfWindow.simps [simp del]

definition groupEdges :: "GraphEdge list \<Rightarrow> (account_id \<times> GraphEdge list) list \<times> (account_id \<times> GraphEdge list) list" where
  "groupEdges edges =
     fold (\<lambda>edge (byReceiver, bySender).
             (push_to byReceiver (target edge) edge, push_to bySender (source edge) edge))
          edges ([], [])"

definition detectSmurfing :: "GraphEdge list \<Rightarrow> account_id list \<times> account_id list" where
  "detectSmurfing edges =
     (let (byReceiver, bySender) = groupEdges edges;
          fanInAccounts =
            fold (\<lambda>(receiver, rxEdges) found.
                    if smurfWindow source (sort_key timestamp rxEdges) 0 0
                    then set_add found receiver else found) byReceiver [];
          fanOutAccounts =
            fold (\<lambda>(sender, txEdges) found.
                    if smurfWindow target (sort_key timestamp txEdges) 0 0
                    then set_add found sender else found) bySender []
      in (fanInAccounts, fanOutAccounts))"

section \<open>Layered shell network detection (detectShellChains)\<close>

definition SHELL_MIN_HOPS :: nat where
  "SHELL_MIN_HOPS = 3"

definition SHELL_MAX_TX :: nat where
  "SHELL_MAX_TX = 3"

text \<open>
  The state of one traversal: the \<open>visited\<close> set, the queue of
  \<open>{id, depth, chain}\<close> items, and the \<open>shellAccounts\<close> found so far.
  \<open>shellNeighbors\<close> is the loop over the neighbours of the item taken from the queue.
\<close>

type_synonym shell_state =
  "account_id list \<times> (account_id \<times> nat \<times> account_id list) list \<times> account_id list"

fun shellNeighbors :: "(account_id \<times> GraphNode) list \<Rightarrow> nat \<Rightarrow> account_id list
      \<Rightarrow> account_id list \<Rightarrow> shell_state \<Rightarrow> shell_state" where
  "shellNeighbors nodes depth chain [] st = st"
| "shellNeighbors nodes depth chain (neighbor # rest) (visited, queue, shellAccounts) =
     (if neighbor \<in> set visited
      then shellNeighbors nodes depth chain rest (visited, queue, shellAccounts)
      else case map_of nodes neighbor of
        None \<Rightarrow> shellNeighbors nodes depth chain rest (visited, queue, shellAccounts)
      | Some nNode \<Rightarrow>
          (let isShellIntermediate =
                 (totalTransactions nNode \<ge> 2 \<and> totalTransactions nNode \<le> SHELL_MAX_TX);
               shellAccounts' =
                 (if depth \<ge> SHELL_MIN_HOPS - 1 \<and> length chain \<ge> SHELL_MIN_HOPS
                  then set_add (fold (\<lambda>acc s. set_add s acc) chain shellAccounts) neighbor
                  else shellAccounts)
           in if isShellIntermediate \<and> depth < 6
              then shellNeighbors nodes depth chain rest
                     (set_add visited neighbor,
                      queue @ [(neighbor, depth + 1, chain @ [neighbor])], shellAccounts')
              else shellNeighbors nodes depth chain rest (visited, queue, shellAccounts')))"

lemma shellNeighbors_measure:
  "shellNeighbors nodes depth chain nbrs (visited, queue, shellAccounts) = (visited', queue', shellAccounts')
   \<Longrightarrow> 2 * card (fst ` set nodes - set visited') + length queue'
       \<le> 2 * card (fst ` set nodes - set visited) + length queue"
proof (induction nbrs arbitrary: visited queue shellAccounts)
  case Nil
  then show ?case by simp
next
  case (Cons neighbor rest)
  show ?case
  proof (cases "neighbor \<in> set visited")
    case True
    with Cons show ?thesis by simp
  next
    case False
    show ?thesis
    proof (cases "map_of nodes neighbor")
      case None
      with False Cons show ?thesis by simp
    next
      case (Some nNode)
      let ?s = "(if depth \<ge> SHELL_MIN_HOPS - 1 \<and> length chain \<ge> SHELL_MIN_HOPS
                  then set_add (fold (\<lambda>acc s. set_add s acc) chain shellAccounts) neighbor
                  else shellAccounts)"
      let ?c = "(totalTransactions nNode \<ge> 2 \<and> totalTransactions nNode \<le> SHELL_MAX_TX) \<and> depth < 6"
      have unf: "shellNeighbors nodes depth chain (neighbor # rest) (visited, queue, shellAccounts) =
          (if ?c then shellNeighbors nodes depth chain rest
               (set_add visited neighbor, queue @ [(neighbor, depth + 1, chain @ [neighbor])], ?s)
           else shellNeighbors nodes depth chain rest (visited, queue, ?s))"
        using False Some by (simp only: shellNeighbors.simps if_False option.case Let_def)
      show ?thesis
      proof (cases ?c)
        case True
        have step: "shellNeighbors nodes depth chain rest
               (set_add visited neighbor, queue @ [(neighbor, depth + 1, chain @ [neighbor])], ?s)
              = (visited', queue', shellAccounts')"
          using Cons.prems unfolding unf if_P[OF True] .
        have mem: "neighbor \<in> fst ` set nodes - set visited"
          using False Some by (auto dest: map_of_SomeD intro: rev_image_eqI)
        have eq: "fst ` set nodes - set (set_add visited neighbor)
                  = (fst ` set nodes - set visited) - {neighbor}"
          using False by (auto simp: set_add_def)
        have lt: "card ((fst ` set nodes - set visited) - {neighbor}) < card (fst ` set nodes - set visited)"
          using mem by (intro card_Diff1_less) auto
        have "2 * card (fst ` set nodes - set visited') + length queue'
           \<le> 2 * card (fst ` set nodes - set (set_add visited neighbor))
              + length (queue @ [(neighbor, depth + 1, chain @ [neighbor])])"
          by (rule Cons.IH[OF step])
        also have "\<dots> = 2 * card ((fst ` set nodes - set visited) - {neighbor}) + length queue + 1"
          unfolding eq by simp
        also have "\<dots> \<le> 2 * card (fst ` set nodes - set visited) + length queue"
          using lt by linarith
        finally show ?thesis .
      next
        case notpush: False
        have step: "shellNeighbors nodes depth chain rest (visited, queue, ?s)
              = (visited', queue', shellAccounts')"
          using Cons.prems unfolding unf if_not_P[OF notpush] .
        from Cons.IH[OF step] show ?thesis .
      qed
    qed
  qed
qed

function shellBfs :: "(account_id \<times> GraphNode) list \<Rightarrow> (account_id \<times> account_id list) list
      \<Rightarrow> account_id list \<Rightarrow> (account_id \<times> nat \<times> account_id list) list \<Rightarrow> account_id list
      \<Rightarrow> account_id list" where
  "shellBfs nodes adjacency visited [] shellAccounts = shellAccounts"
| "shellBfs nodes adjacency visited ((cur, depth, chain) # queue) shellAccounts =
     (case shellNeighbors nodes depth chain (neighborsOf adjacency cur) (visited, queue, shellAccounts) of
        (visited', queue', shellAccounts') \<Rightarrow> shellBfs nodes adjacency visited' queue' shellAccounts')"
  by pat_completeness auto
termination
proof (relation "measure (\<lambda>(nodes, adjacency, visited, queue, shellAccounts).
          2 * card (fst ` set nodes - set visited) + length queue)", goal_cases)
  case 1
  show ?case by simp
next
  case (2 nodes adjacency visited cur depth chain queue shellAccounts v' y q' s')
  have "shellNeighbors nodes depth chain (neighborsOf adjacency cur) (visited, queue, shellAccounts)
        = (v', q', s')"
    using 2 by simp
  from shellNeighbors_measure[OF this] show ?case by simp
qed


definition detectShellChains :: "(account_id \<times> GraphNode) list \<Rightarrow> (account_id \<times> account_id list) list
      \<Rightarrow> account_id list" where
  "detectShellChains nodes adjacency =
     fold (\<lambda>(startId, startNode) shellAccounts.
             shellBfs nodes adjacency [startId] [(startId, 0, [startId])] shellAccounts)
          nodes []"

section \<open>High velocity detection (detectHighVelocity)\<close>

definition VELOCITY_WINDOW_MS :: int where
  "VELOCITY_WINDOW_MS = 24 * 60 * 60 * 1000"

definition VELOCITY_MIN_TX :: nat where
  "VELOCITY_MIN_TX = 20"

function velocityWindow :: "int list \<Rightarrow> nat \<Rightarrow> nat \<Rightarrow> bool" where
  "velocityWindow sortedTimes left right =
     (if right < length sortedTimes then
        (let left' = advanceLeft VELOCITY_WINDOW_MS sortedTimes right left
         in if right - left' + 1 \<ge> VELOCITY_MIN_TX then True
            else velocityWindow sortedTimes left' (right + 1))
      else False)"
  by pat_completeness auto
termination
  by (relation "measure (\<lambda>(ts, l, r). length ts - r)") auto

declare velocityWindow.simps [simp del]

definition detectHighVelocity :: "GraphEdge list \<Rightarrow> account_id list" where
  "detectHighVelocity edges =
     (let bySender = fold (\<lambda>edge m. push_to m (source edge) (timestamp edge)) edges []
      in fold (\<lambda>(sender, timestamps) found.
                 if velocityWindow (sort timestamps) 0 0 then set_add found sender else found)
              bySender [])"

section \<open>Suspicion scoring (scoreAccounts)\<close>

definition SCORES_cycle :: real where "SCORES_cycle = 40"
definition SCORES_fanIn :: real where "SCORES_fanIn = 25"
definition SCORES_fanOut :: real where "SCORES_fanOut = 25"
definition SCORES_shell :: real where "SCORES_shell = 20"
definition SCORES_velocity :: real where "SCORES_velocity = 10"

text \<open>
  The body of the loop over the node table. \<open>cycleNodes\<close> maps an account to
  \<open>{length, ringId}\<close>, a pair here.
\<close>

definition scoreNode :: "(account_id \<times> nat \<times> string) list \<Rightarrow> account_id list \<Rightarrow> account_id list
      \<Rightarrow> account_id list \<Rightarrow> account_id list \<Rightarrow> account_id \<Rightarrow> GraphNode \<Rightarrow> GraphNode" where
  "scoreNode cycleNodes fanInAccounts fanOutAccounts shellAccounts highVelocity i node =
     (let (score1, patterns1, node1) =
            (case map_of cycleNodes i of
               Some info \<Rightarrow> (SCORES_cycle, [cycle_length (fst info)], node\<lparr>ringId := Some (snd info)\<rparr>)
             | None \<Rightarrow> (0, [], node));
          (score2, patterns2) =
            (if i \<in> set fanInAccounts then (score1 + SCORES_fanIn, patterns1 @ [fan_in])
             else (score1, patterns1));
          (score3, patterns3) =
            (if i \<in> set fanOutAccounts then (score2 + SCORES_fanOut, patterns2 @ [fan_out])
             else (score2, patterns2));
          (score4, patterns4) =
            (if i \<in> set shellAccounts then (score3 + SCORES_shell, patterns3 @ [shell_chain])
             else (score3, patterns3));
          (score5, patterns5) =
            (if i \<in> set highVelocity then (score4 + SCORES_velocity, patterns4 @ [high_velocity])
             else (score4, patterns4))
      in node1\<lparr>suspicionScore := min 100 score5, detectedPatterns := patterns5,
                isSuspicious := (score5 > 0)\<rparr>)"

definition scoreAccounts :: "(account_id \<times> GraphNode) list \<Rightarrow> (account_id \<times> nat \<times> string) list
      \<Rightarrow> account_id list \<Rightarrow> account_id list \<Rightarrow> account_id list \<Rightarrow> account_id list
      \<Rightarrow> (account_id \<times> GraphNode) list" where
  "scoreAccounts nodes cycleNodes fanInAccounts fanOutAccounts shellAccounts highVelocity =
     map (\<lambda>(i, node). (i, scoreNode cycleNodes fanInAccounts fanOutAccounts shellAccounts highVelocity i node))
         nodes"

section \<open>False positive filtering (filterFalsePositives)\<close>

text \<open>\<open>p.startsWith('cycle')\<close>\<close>

fun startsWithCycle :: "PatternType \<Rightarrow> bool" where
  "startsWithCycle (cycle_length k) = True"
| "startsWithCycle p = False"

text \<open>
  The payroll test of the source is \<open>amounts.length >= 10\<close> followed by \<open>cv < 0.05\<close>,
  where \<open>mean\<close>, \<open>std\<close> and \<open>cv\<close> are computed from the amounts in double precision,
  with \<open>reduce\<close>, \<open>**\<close> and \<open>Math.sqrt\<close>. That computation rounds at every step,
  so that \<open>cv\<close> can fall on the other side of 0.05 than the exact quotient does, and it
  can overflow, so that \<open>cv\<close> is \<open>Infinity\<close> or \<open>NaN\<close>; the reals of HOL show neither.
  The model therefore does not compute \<open>cv\<close>: the outcome of the comparison
  \<open>cv < 0.05\<close> is a function \<open>cvBelow\<close> of the array of amounts, which the filter and
  the entry point take as their first argument. What is proved below of them is proved
  for every such function, and so for the one the engine runs.
\<close>

definition isPayroll :: "(real list \<Rightarrow> bool) \<Rightarrow> real list \<Rightarrow> bool" where
  "isPayroll cvBelow amounts = (length amounts \<ge> 10 \<and> cvBelow amounts)"

definition removeFanOut :: "GraphNode \<Rightarrow> GraphNode" where
  "removeFanOut node =
     (let node1 = node\<lparr>detectedPatterns := filter (\<lambda>p. p \<noteq> fan_out) (detectedPatterns node)\<rparr>;
          node2 = node1\<lparr>suspicionScore := max 0 (suspicionScore node1 - SCORES_fanOut)\<rparr>
      in if length (detectedPatterns node2) = 0
         then node2\<lparr>isSuspicious := False, suspicionScore := 0\<rparr>
         else node2)"

text \<open>One turn of the loop over \<open>bySender\<close>.\<close>

definition filterSender :: "(real list \<Rightarrow> bool) \<Rightarrow> account_id \<times> real list
      \<Rightarrow> (account_id \<times> GraphNode) list \<Rightarrow> (account_id \<times> GraphNode) list" where
  "filterSender cvBelow entry nodes =
     (case entry of (sender, amounts) \<Rightarrow>
        (case map_of nodes sender of
           None \<Rightarrow> nodes
         | Some node \<Rightarrow>
             if isPayroll cvBelow amounts then
               (if fan_out \<notin> set (detectedPatterns node)
                   \<or> list_ex startsWithCycle (detectedPatterns node)
                then nodes
                else map_mutate sender removeFanOut nodes)
             else nodes))"

definition amountsBySender :: "GraphEdge list \<Rightarrow> (account_id \<times> real list) list" where
  "amountsBySender edges = fold (\<lambda>edge m. push_to m (source edge) (edge_amount edge)) edges []"

definition filterFalsePositives :: "(real list \<Rightarrow> bool) \<Rightarrow> (account_id \<times> GraphNode) list
      \<Rightarrow> GraphEdge list \<Rightarrow> (account_id \<times> GraphNode) list" where
  "filterFalsePositives cvBelow nodes edges = fold (filterSender cvBelow) (amountsBySender edges) nodes"

section \<open>Fraud ring assembly (assembleFraudRings)\<close>

text \<open>\<open>`RING_${String(n).padStart(3, '0')}`\<close>\<close>

definition digitChar :: "nat \<Rightarrow> char" where
  "digitChar d = ''0123456789'' ! d"

function decimal :: "nat \<Rightarrow> string" where
  "decimal n = (if n < 10 then [digitChar n] else decimal (n div 10) @ [digitChar (n mod 10)])"
  by pat_completeness auto
termination
  by (relation "measure (\<lambda>n. n)") auto

declare decimal.simps [simp del]

definition padStart :: "nat \<Rightarrow> char \<Rightarrow> string \<Rightarrow> string" where
  "padStart width c str = replicate (width - length str) c @ str"

definition mkRingId :: "nat \<Rightarrow> string" where
  "mkRingId n = ''RING_'' @ padStart 3 (CHR ''0'') (decimal n)"

text \<open>\<open>Math.round(x * 10) / 10\<close>; \<open>Math.round\<close> rounds a half upwards.\<close>

definition round1 :: "real \<Rightarrow> real" where
  "round1 x = real_of_int \<lfloor>x * 10 + 1 / 2\<rfloor> / 10"

text \<open>
  \<open>arr.reduce((sum, acc) => sum + (nodes.get(acc)?.suspicionScore ?? 0), 0) / arr.length\<close>.
  For an empty array JavaScript yields NaN where HOL yields 0; the engine never divides
  for an empty array outside a cycle group, and a cycle group is never empty.
\<close>

definition avgScore :: "(account_id \<times> GraphNode) list \<Rightarrow> account_id list \<Rightarrow> real" where
  "avgScore nodes arr =
     foldl (\<lambda>total acc. total + (case map_of nodes acc of Some node \<Rightarrow> suspicionScore node | None \<Rightarrow> 0))
           0 arr / real (length arr)"

text \<open>
  The search for the ring of the first member that already has one. An empty string
  would count as no ring (\<open>if (!mergedRingId)\<close>).
\<close>

fun findMerged :: "(account_id \<times> string) list \<Rightarrow> account_id list \<Rightarrow> string option" where
  "findMerged ringIdMap [] = None"
| "findMerged ringIdMap (acc # rest) =
     (case map_of ringIdMap acc of Some rid \<Rightarrow> Some rid | None \<Rightarrow> findMerged ringIdMap rest)"

text \<open>
  One turn of the loop over the cycles; the state is the counter, \<open>ringIdMap\<close> and
  \<open>cycleGroups\<close>. Every id that enters \<open>ringIdMap\<close> is the key of a group, so
  \<open>cycleGroups.get(mergedRingId)!\<close> finds its group; where it would not, the model
  leaves the groups as they are.
\<close>

type_synonym cycle_ring_state =
  "nat \<times> (account_id \<times> string) list \<times> (string \<times> account_id list) list"

definition mergeCycle :: "account_id list \<Rightarrow> cycle_ring_state \<Rightarrow> cycle_ring_state" where
  "mergeCycle cycle st =
     (case st of (ringCounter, ringIdMap, cycleGroups) \<Rightarrow>
        (let found = findMerged ringIdMap cycle;
             fresh = (found = None \<or> found = Some []);
             ringCounter' = (if fresh then ringCounter + 1 else ringCounter);
             mergedRingId = (case found of Some rid \<Rightarrow> if rid = [] then mkRingId ringCounter' else rid
                             | None \<Rightarrow> mkRingId ringCounter');
             cycleGroups' = (if fresh then map_set cycleGroups mergedRingId [] else cycleGroups);
             cycleGroups'' = map_mutate mergedRingId (\<lambda>grp. fold (\<lambda>acc g. set_add g acc) cycle grp) cycleGroups';
             ringIdMap' = fold (\<lambda>acc m. map_set m acc mergedRingId) cycle ringIdMap
         in (ringCounter', ringIdMap', cycleGroups'')))"

text \<open>The loop over \<open>cycleGroups\<close>: one ring per group, and the members' \<open>ringId\<close>.\<close>

definition cycleRing :: "string \<times> account_id list \<Rightarrow> FraudRing list \<times> (account_id \<times> GraphNode) list
      \<Rightarrow> FraudRing list \<times> (account_id \<times> GraphNode) list" where
  "cycleRing entry st =
     (case entry of (rid, members) \<Rightarrow>
        (case st of (rings, nodes) \<Rightarrow>
           (rings @ [\<lparr>ring_id = rid, member_accounts = members, pattern_type = ring_cycle,
                      risk_score = round1 (avgScore nodes members)\<rparr>],
            fold (\<lambda>acc ns. map_mutate acc (\<lambda>node. node\<lparr>ringId := Some rid\<rparr>) ns) members nodes)))"

text \<open>
  The fan-in, fan-out and shell blocks are one text in the source, up to the candidate
  array and the pattern. \<open>!node.ringId\<close> holds for an absent and for an empty id.
\<close>

definition candidateRing :: "RingPattern \<Rightarrow> account_id list
      \<Rightarrow> nat \<times> FraudRing list \<times> (account_id \<times> GraphNode) list
      \<Rightarrow> nat \<times> FraudRing list \<times> (account_id \<times> GraphNode) list" where
  "candidateRing pattern arr st =
     (case st of (ringCounter, rings, nodes) \<Rightarrow>
        if length arr > 0 then
          (let rid = mkRingId (ringCounter + 1)
           in (ringCounter + 1,
               rings @ [\<lparr>ring_id = rid, member_accounts = arr, pattern_type = pattern,
                         risk_score = round1 (avgScore nodes arr)\<rparr>],
               fold (\<lambda>acc ns. map_mutate acc
                       (\<lambda>node. if ringId node = None \<or> ringId node = Some []
                                then node\<lparr>ringId := Some rid\<rparr> else node) ns) arr nodes))
        else st)"

text \<open>
  \<open>ringCounter\<close> is a variable of the module: the function receives its value and
  returns the value it leaves behind. Its first statement sets it to 0.
\<close>

definition assembleFraudRings :: "nat \<Rightarrow> account_id list list \<Rightarrow> account_id list \<Rightarrow> account_id list
      \<Rightarrow> account_id list \<Rightarrow> (account_id \<times> GraphNode) list
      \<Rightarrow> FraudRing list \<times> (account_id \<times> GraphNode) list \<times> nat" where
  "assembleFraudRings ringCounter cycles fanInAccounts fanOutAccounts shellAccounts nodes =
     (case fold mergeCycle cycles (0, [], []) of (ringCounter1, ringIdMap, cycleGroups) \<Rightarrow>
        (case fold cycleRing cycleGroups ([], nodes) of (rings1, nodes1) \<Rightarrow>
           (let fanInArr = filter (\<lambda>acc. \<not> map_has ringIdMap acc) fanInAccounts;
                fanOutArr = filter (\<lambda>acc. \<not> map_has ringIdMap acc \<and> acc \<notin> set fanInAccounts)
                              fanOutAccounts;
                shellArr = filter (\<lambda>acc. \<not> map_has ringIdMap acc \<and> acc \<notin> set fanInAccounts
                                         \<and> acc \<notin> set fanOutAccounts) shellAccounts
            in (case candidateRing ring_shell_chain shellArr
                       (candidateRing ring_fan_out fanOutArr
                          (candidateRing ring_fan_in fanInArr (ringCounter1, rings1, nodes1)))
                of (ringCounter4, rings4, nodes4) \<Rightarrow> (rings4, nodes4, ringCounter4)))))"

section \<open>The entry point (analyzeTransactions)\<close>

text \<open>The table account \<open>\<rightarrow>\<close> shortest cycle length, with the \<open>ringId\<close> placeholder.\<close>

definition buildCycleNodes :: "account_id list list \<Rightarrow> (account_id \<times> nat \<times> string) list" where
  "buildCycleNodes cycles =
     fold (\<lambda>cycle m.
             fold (\<lambda>acc m. case map_of m acc of
                              None \<Rightarrow> map_set m acc (length cycle, [])
                            | Some info \<Rightarrow> if fst info > length cycle
                                           then map_set m acc (length cycle, []) else m)
                  cycle m)
          cycles []"

definition suspiciousAccountsOf :: "(account_id \<times> GraphNode) list \<Rightarrow> SuspiciousAccount list" where
  "suspiciousAccountsOf nodes =
     map (\<lambda>n. \<lparr>account_id = node_id n, suspicion_score = round1 (suspicionScore n),
               detected_patterns = detectedPatterns n, account_ring_id = ringId n\<rparr>)
         (sort_key (\<lambda>n. - suspicionScore n)
            (filter (\<lambda>n. isSuspicious n \<and> suspicionScore n > 0) (map snd nodes)))"

text \<open>
  Steps 1 to 6 of the entry point: the graph, the detector outputs and the node table
  after scoring.
\<close>

record Detection =
  det_graph :: Graph
  det_cycles :: "account_id list list"
  det_fanIn :: "account_id list"
  det_fanOut :: "account_id list"
  det_shell :: "account_id list"
  det_velocity :: "account_id list"
  det_scored :: "(account_id \<times> GraphNode) list"

definition detect :: "Transaction list \<Rightarrow> Detection" where
  "detect transactions =
     (let g = buildGraph transactions;
          nodes = graph_nodes g;
          edges = graph_edges g;
          adjacency = graph_adjacency g;
          nodeIds = map fst nodes;
          cycles = detectCycles adjacency nodeIds;
          cycleNodes = buildCycleNodes cycles;
          (fanInAccounts, fanOutAccounts) = detectSmurfing edges;
          shellAccounts = detectShellChains nodes adjacency;
          highVelocity = detectHighVelocity edges;
          scored = scoreAccounts nodes cycleNodes fanInAccounts fanOutAccounts shellAccounts highVelocity
      in \<lparr>det_graph = g, det_cycles = cycles, det_fanIn = fanInAccounts, det_fanOut = fanOutAccounts,
          det_shell = shellAccounts, det_velocity = highVelocity, det_scored = scored\<rparr>)"

text \<open>Step 7: the node table after the false positive filter.\<close>

definition det_filtered :: "(real list \<Rightarrow> bool) \<Rightarrow> Transaction list \<Rightarrow> (account_id \<times> GraphNode) list" where
  "det_filtered cvBelow transactions =
     (let d = detect transactions
      in filterFalsePositives cvBelow (det_scored d) (graph_edges (det_graph d)))"

text \<open>
  The entry point. It reads the module's \<open>ringCounter\<close> and the clock
  (\<open>performance.now()\<close>, at the start and at the end), which are arguments here, and
  returns the result with the counter it leaves behind.
\<close>

definition analyzeTransactions :: "(real list \<Rightarrow> bool) \<Rightarrow> nat \<Rightarrow> real \<Rightarrow> real \<Rightarrow> Transaction list
      \<Rightarrow> AnalysisResult \<times> nat" where
  "analyzeTransactions cvBelow ringCounter startTime endTime transactions =
     (let d = detect transactions
      in case assembleFraudRings ringCounter (det_cycles d) (det_fanIn d) (det_fanOut d) (det_shell d)
                (det_filtered cvBelow transactions)
         of (fraudRings, nodes, ringCounter') \<Rightarrow>
           (let suspiciousAccounts = suspiciousAccountsOf nodes;
                processingTime = (endTime - startTime) / 1000
            in (\<lparr>suspicious_accounts = suspiciousAccounts,
                 fraud_rings = fraudRings,
                 summary = \<lparr>total_accounts_analyzed = length nodes,
                             suspicious_accounts_flagged = length suspiciousAccounts,
                             fraud_rings_detected = length fraudRings,
                             processing_time_seconds = real_of_int \<lfloor>processingTime * 100 + 1 / 2\<rfloor> / 100\<rparr>,
                 result_nodes = nodes,
                 result_edges = graph_edges (det_graph d)\<rparr>, ringCounter')))"

section \<open>Scenarios\<close>

text \<open>Concrete transaction batches that the theorems below are evaluated on.\<close>

definition transfer :: "string \<Rightarrow> account_id \<Rightarrow> account_id \<Rightarrow> real \<Rightarrow> int \<Rightarrow> Transaction" where
  "transfer tid sender receiver amt ms =
     \<lparr>transaction_id = tid, sender_id = sender, receiver_id = receiver, amount = amt,
      timestampMs = ms\<rparr>"

text \<open>A self-loop on A, the two-cycle A, B and the triangle A, B, C.\<close>

definition loops_batch :: "Transaction list" where
  "loops_batch =
     [transfer ''T1'' ''A'' ''A'' 100 0,
      transfer ''T2'' ''A'' ''B'' 100 1000,
      transfer ''T3'' ''B'' ''A'' 100 2000,
      transfer ''T4'' ''B'' ''C'' 100 3000,
      transfer ''T5'' ''C'' ''A'' 100 4000]"

text \<open>The triangle on A, B, C in both directions.\<close>

definition both_directions_batch :: "Transaction list" where
  "both_directions_batch =
     [transfer ''T1'' ''A'' ''B'' 100 0,
      transfer ''T2'' ''B'' ''C'' 100 1000,
      transfer ''T3'' ''C'' ''A'' 100 2000,
      transfer ''T4'' ''A'' ''C'' 100 3000,
      transfer ''T5'' ''C'' ''B'' 100 4000,
      transfer ''T6'' ''B'' ''A'' 100 5000]"

text \<open>
  Two disjoint triangles A, B, C and D, E, F, and a third triangle F, C, W that touches
  both. The accounts first appear in the order A, B, D, E, F, C, W.
\<close>

definition overlapping_cycles_batch :: "Transaction list" where
  "overlapping_cycles_batch =
     [transfer ''T1'' ''A'' ''B'' 100 0,
      transfer ''T2'' ''D'' ''E'' 100 1000,
      transfer ''T3'' ''E'' ''F'' 100 2000,
      transfer ''T4'' ''F'' ''D'' 100 3000,
      transfer ''T5'' ''B'' ''C'' 100 4000,
      transfer ''T6'' ''C'' ''A'' 100 5000,
      transfer ''T7'' ''F'' ''C'' 100 6000,
      transfer ''T8'' ''C'' ''W'' 100 7000,
      transfer ''T9'' ''W'' ''F'' 100 8000]"

text \<open>
  Scenario 3 of the specification: P pays exactly 1000.00 to fifteen distinct receivers,
  one payment every forty minutes (9 h 20 min in all).
\<close>

definition payroll_batch :: "Transaction list" where
  "payroll_batch =
     [transfer ''T1'' ''P'' ''R01'' 1000 0,
      transfer ''T2'' ''P'' ''R02'' 1000 2400000,
      transfer ''T3'' ''P'' ''R03'' 1000 4800000,
      transfer ''T4'' ''P'' ''R04'' 1000 7200000,
      transfer ''T5'' ''P'' ''R05'' 1000 9600000,
      transfer ''T6'' ''P'' ''R06'' 1000 12000000,
      transfer ''T7'' ''P'' ''R07'' 1000 14400000,
      transfer ''T8'' ''P'' ''R08'' 1000 16800000,
      transfer ''T9'' ''P'' ''R09'' 1000 19200000,
      transfer ''T10'' ''P'' ''R10'' 1000 21600000,
      transfer ''T11'' ''P'' ''R11'' 1000 24000000,
      transfer ''T12'' ''P'' ''R12'' 1000 26400000,
      transfer ''T13'' ''P'' ''R13'' 1000 28800000,
      transfer ''T14'' ''P'' ''R14'' 1000 31200000,
      transfer ''T15'' ''P'' ''R15'' 1000 33600000]"

text \<open>
  H pays exactly 1000.00 to twenty distinct receivers, one payment an hour (19 h in all):
  a payroll sender that is also a high-velocity sender.
\<close>

definition velocity_payroll_batch :: "Transaction list" where
  "velocity_payroll_batch =
     [transfer ''T1'' ''H'' ''R01'' 1000 0,
      transfer ''T2'' ''H'' ''R02'' 1000 3600000,
      transfer ''T3'' ''H'' ''R03'' 1000 7200000,
      transfer ''T4'' ''H'' ''R04'' 1000 10800000,
      transfer ''T5'' ''H'' ''R05'' 1000 14400000,
      transfer ''T6'' ''H'' ''R06'' 1000 18000000,
      transfer ''T7'' ''H'' ''R07'' 1000 21600000,
      transfer ''T8'' ''H'' ''R08'' 1000 25200000,
      transfer ''T9'' ''H'' ''R09'' 1000 28800000,
      transfer ''T10'' ''H'' ''R10'' 1000 32400000,
      transfer ''T11'' ''H'' ''R11'' 1000 36000000,
      transfer ''T12'' ''H'' ''R12'' 1000 39600000,
      transfer ''T13'' ''H'' ''R13'' 1000 43200000,
      transfer ''T14'' ''H'' ''R14'' 1000 46800000,
      transfer ''T15'' ''H'' ''R15'' 1000 50400000,
      transfer ''T16'' ''H'' ''R16'' 1000 54000000,
      transfer ''T17'' ''H'' ''R17'' 1000 57600000,
      transfer ''T18'' ''H'' ''R18'' 1000 61200000,
      transfer ''T19'' ''H'' ''R19'' 1000 64800000,
      transfer ''T20'' ''H'' ''R20'' 1000 68400000]"

section \<open>Invariants of the cycle search\<close>

text \<open>
  What holds of \<open>seenCycles\<close> and \<open>cycles\<close> throughout the search: every recorded
  cycle is a list of three to five distinct accounts, \<open>seenCycles\<close> lists the keys of
  the recorded cycles in order, and no key occurs twice.
\<close>

definition cycles_inv :: "cycle_state \<Rightarrow> bool" where
  "cycles_inv st \<longleftrightarrow>
     list_all (\<lambda>c. 3 \<le> length c \<and> length c \<le> 5 \<and> distinct c) (snd st)
     \<and> fst st = map cycleKey (snd st) \<and> distinct (fst st)"

section \<open>Invariants of scoring and filtering\<close>

text \<open>
  The weight the scorer adds for a tag, and what scoring and the payroll filter maintain
  of every node: the tags are distinct, the score is the capped sum of their weights, and
  the node is suspicious exactly when it has a tag.
\<close>

fun tagWeight :: "PatternType \<Rightarrow> real" where
  "tagWeight (cycle_length k) = SCORES_cycle"
| "tagWeight fan_in = SCORES_fanIn"
| "tagWeight fan_out = SCORES_fanOut"
| "tagWeight shell_chain = SCORES_shell"
| "tagWeight high_velocity = SCORES_velocity"

definition tags_inv :: "GraphNode \<Rightarrow> bool" where
  "tags_inv n \<longleftrightarrow>
     distinct (detectedPatterns n)
     \<and> suspicionScore n = min 100 (sum_list (map tagWeight (detectedPatterns n)))
     \<and> isSuspicious n = (detectedPatterns n \<noteq> [])"

text \<open>Invariants 2 and 3 of the data model (section 3 of the specification).\<close>

definition score_invariant :: "GraphNode \<Rightarrow> bool" where
  "score_invariant n \<longleftrightarrow>
     (isSuspicious n \<longleftrightarrow> suspicionScore n > 0)
     \<and> (suspicionScore n > 0 \<longleftrightarrow> detectedPatterns n \<noteq> [])
     \<and> 0 \<le> suspicionScore n \<and> suspicionScore n \<le> 100"


section \<open>Ring identifiers\<close>

text \<open>
  The format \<open>^RING_\d{3}$\<close> of the specification, the value of a digit string, and
  what holds of the assembler's counter: the keys of \<open>cycleGroups\<close>, and later the ids
  of the rings, are the identifiers of 1, 2, ... up to the counter, in this order.
\<close>

definition isDigit :: "char \<Rightarrow> bool" where
  "isDigit c = (c \<in> set ''0123456789'')"

definition ringIdFormat :: "string \<Rightarrow> bool" where
  "ringIdFormat s = (length s = 8 \<and> take 5 s = ''RING_'' \<and> list_all isDigit (drop 5 s))"

definition digitValue :: "char \<Rightarrow> nat" where
  "digitValue c = of_char c - 48"

definition parseDecimal :: "string \<Rightarrow> nat" where
  "parseDecimal s = foldl (\<lambda>total c. 10 * total + digitValue c) 0 s"

definition groups_inv :: "cycle_ring_state \<Rightarrow> bool" where
  "groups_inv st \<longleftrightarrow> map fst (snd (snd st)) = map mkRingId [1..<Suc (fst st)]"

definition rings_inv :: "nat \<times> FraudRing list \<times> (account_id \<times> GraphNode) list \<Rightarrow> bool" where
  "rings_inv st \<longleftrightarrow> map ring_id (fst (snd st)) = map mkRingId [1..<Suc (fst st)]"

text \<open>
  The \<open>ringId\<close> of a node and the \<open>ring_id\<close> of a \<open>suspicious_accounts\<close> entry are
  optional. \<open>ringKnown ids r\<close>: an id that is present is one of \<open>ids\<close>, and so not
  the empty placeholder of the scorer; \<open>ringFormatted r\<close>: an id that is present has
  the format.
\<close>

definition ringKnown :: "string list \<Rightarrow> string option \<Rightarrow> bool" where
  "ringKnown ids r = (case r of None \<Rightarrow> True | Some rid \<Rightarrow> rid \<in> set ids)"

definition ringFormatted :: "string option \<Rightarrow> bool" where
  "ringFormatted r = (case r of None \<Rightarrow> True | Some rid \<Rightarrow> ringIdFormat rid)"

text \<open>
  What holds of the \<open>ringId\<close> of the node under key \<open>k\<close> on the way to the report.
  Before the assembly it is absent, or the scorer's placeholder on an account of a cycle
  (\<open>unassigned\<close>, with \<open>C\<close> the accounts of the cycles). While the cycle groups are
  turned into rings it is absent or the id of a ring, or still the placeholder on an
  account of a cycle that is in none of the groups \<open>S\<close> processed so far (\<open>pending\<close>).
  The merging pass keeps every id of \<open>ringIdMap\<close> a key of \<open>cycleGroups\<close> and every
  account of a processed cycle a member of some group (\<open>merge_inv\<close>, with \<open>A\<close> the
  accounts of the cycles processed so far).
\<close>

definition unassigned :: "account_id set \<Rightarrow> account_id \<Rightarrow> GraphNode \<Rightarrow> bool" where
  "unassigned C k n \<longleftrightarrow> ringId n = None \<or> (ringId n = Some [] \<and> k \<in> C)"

definition pending :: "string list \<Rightarrow> account_id set \<Rightarrow> account_id set \<Rightarrow> account_id \<Rightarrow> GraphNode \<Rightarrow> bool" where
  "pending ids C S k n \<longleftrightarrow> ringKnown ids (ringId n) \<or> (ringId n = Some [] \<and> k \<in> C \<and> k \<notin> S)"

definition merge_inv :: "account_id set \<Rightarrow> cycle_ring_state \<Rightarrow> bool" where
  "merge_inv A st \<longleftrightarrow>
     groups_inv st
     \<and> (\<forall>acc rid. map_of (fst (snd st)) acc = Some rid \<longrightarrow> map_of (snd (snd st)) rid \<noteq> None)
     \<and> (\<forall>acc \<in> A. \<exists>rid members. map_of (snd (snd st)) rid = Some members \<and> acc \<in> set members)"

text \<open>
  A family of batches for large reports: accounts named by runs of the letter a, and
  triangle \<open>i\<close> on the accounts \<open>3i + 1\<close>, \<open>3i + 2\<close>, \<open>3i + 3\<close>. The batch
  \<open>triangles_batch n\<close> holds \<open>3n\<close> transactions that form \<open>n\<close> pairwise disjoint
  triangles.
\<close>

definition acct :: "nat \<Rightarrow> account_id" where
  "acct k = replicate k (CHR ''a'')"

definition triangle :: "nat \<Rightarrow> account_id list" where
  "triangle i = [acct (3 * i + 1), acct (3 * i + 2), acct (3 * i + 3)]"

definition triangles :: "nat \<Rightarrow> account_id list list" where
  "triangles n = map triangle [0..<n]"

definition triangle_transfers :: "nat \<Rightarrow> Transaction list" where
  "triangle_transfers i =
     [transfer (''T'' @ decimal (3 * i + 1)) (acct (3 * i + 1)) (acct (3 * i + 2)) 100 (int (3 * i + 1) * 1000),
      transfer (''T'' @ decimal (3 * i + 2)) (acct (3 * i + 2)) (acct (3 * i + 3)) 100 (int (3 * i + 2) * 1000),
      transfer (''T'' @ decimal (3 * i + 3)) (acct (3 * i + 3)) (acct (3 * i + 1)) 100 (int (3 * i + 3) * 1000)]"

definition triangles_batch :: "nat \<Rightarrow> Transaction list" where
  "triangles_batch n = concat (map triangle_transfers [0..<n])"

section \<open>Windows of the smurfing detector\<close>

text \<open>
  A window of the timestamp-sorted edges of an account, from index \<open>i\<close> to index
  \<open>j\<close> inclusive, that is no wider than 72 hours and holds at least ten distinct
  counterparties.
\<close>

definition windowHit :: "(GraphEdge \<Rightarrow> account_id) \<Rightarrow> GraphEdge list \<Rightarrow> nat \<Rightarrow> nat \<Rightarrow> bool" where
  "windowHit counterparty sortedEdges i j \<longleftrightarrow>
     i \<le> j \<and> j < length sortedEdges
     \<and> timestamp (sortedEdges ! j) - timestamp (sortedEdges ! i) \<le> SMURF_WINDOW_MS
     \<and> SMURF_THRESHOLD \<le> card (counterparty ` set (take (j + 1 - i) (drop i sortedEdges)))"

text \<open>
  Ten distinct senders pay X, one every eight hours: the first and the last payment are
  exactly 72 hours apart.
\<close>

definition ten_senders_batch :: "Transaction list" where
  "ten_senders_batch =
     [transfer ''T1'' ''S01'' ''X'' 100 0,
      transfer ''T2'' ''S02'' ''X'' 101 28800000,
      transfer ''T3'' ''S03'' ''X'' 102 57600000,
      transfer ''T4'' ''S04'' ''X'' 103 86400000,
      transfer ''T5'' ''S05'' ''X'' 104 115200000,
      transfer ''T6'' ''S06'' ''X'' 105 144000000,
      transfer ''T7'' ''S07'' ''X'' 106 172800000,
      transfer ''T8'' ''S08'' ''X'' 107 201600000,
      transfer ''T9'' ''S09'' ''X'' 108 230400000,
      transfer ''T10'' ''S10'' ''X'' 109 259200000]"

section \<open>The payroll test in the scenarios\<close>

text \<open>
  The payroll scenarios above hold amounts of exactly 1000. On an array of \<open>n\<close> such
  amounts the computation of the source is exact in doubles for every \<open>n\<close> an array
  can have: the partial sums are the integers 1000, 2000, ..., the mean is 1000, every
  deviation and its square is 0, \<open>Math.sqrt(0)\<close> is 0, and \<open>cv\<close> is 0, below 0.05.
  \<open>amountsAll1000\<close> is an outcome function that passes on these arrays and on no
  other; the closed instances of the theorems below are evaluated with it.
\<close>

definition amountsAll1000 :: "real list \<Rightarrow> bool" where
  "amountsAll1000 amounts = list_all (\<lambda>x. x = 1000) amounts"

section \<open>Cycle detection: lengths and deduplication\<close>

lemma recordCycle_inv:
  "cycles_inv st \<Longrightarrow> 3 \<le> length path \<Longrightarrow> length path \<le> 5 \<Longrightarrow> distinct path
   \<Longrightarrow> cycles_inv (recordCycle path st)"
  by (auto simp: cycles_inv_def recordCycle_def Let_def)

lemma dfs_inv:
  "distinct path \<Longrightarrow> length path = depth \<Longrightarrow> set path \<subseteq> set visited \<Longrightarrow> cycles_inv st
     \<Longrightarrow> cycles_inv (dfs adjacency start current depth path visited st)"
  "distinct path \<Longrightarrow> length path = depth \<Longrightarrow> set path \<subseteq> set visited \<Longrightarrow> depth \<le> 5
     \<Longrightarrow> cycles_inv st
     \<Longrightarrow> cycles_inv (dfs_neighbors adjacency start depth path visited nbrs st)"
proof (induction adjacency start current depth path visited st
         and adjacency start depth path visited nbrs st rule: dfs_dfs_neighbors.induct)
  case (1 adjacency start current depth path visited st)
  show ?case
  proof (cases "depth > 5")
    case True
    then show ?thesis using 1 by (simp add: dfs.simps)
  next
    case False
    then have "depth \<le> 5" by simp
    with 1 False show ?thesis by (simp add: dfs.simps)
  qed
next
  case (2 adjacency start depth path visited st)
  then show ?case by simp
next
  case (3 adjacency start depth path visited neighbor rest st)
  show ?case
  proof (cases "neighbor = start \<and> depth \<ge> 3")
    case True
    have "cycles_inv (recordCycle path st)"
      using "3.prems" True by (intro recordCycle_inv) auto
    with "3.IH"(1)[OF True] "3.prems" True show ?thesis by simp
  next
    case notcyc: False
    show ?thesis
    proof (cases "neighbor \<notin> set visited \<and> depth < 5")
      case True
      have "cycles_inv (dfs adjacency start neighbor (depth + 1) (path @ [neighbor]) (visited @ [neighbor]) st)"
        using "3.prems" True by (intro "3.IH"(2)[OF notcyc True]) auto
      with "3.IH"(3)[OF notcyc True] "3.prems" notcyc True show ?thesis by auto
    next
      case False
      with "3.IH"(4) "3.prems" notcyc show ?thesis by auto
    qed
  qed
qed

lemma fold_dfs_inv:
  "cycles_inv st \<Longrightarrow> cycles_inv (fold (\<lambda>start st. dfs adjacency start start 1 [start] [start] st) nodeIds st)"
proof (induction nodeIds arbitrary: st)
  case Nil
  then show ?case by simp
next
  case (Cons start nodeIds)
  have "cycles_inv (dfs adjacency start start 1 [start] [start] st)"
    using Cons.prems by (intro dfs_inv(1)) auto
  from Cons.IH[OF this] show ?case by simp
qed

lemma detectCycles_inv:
  "cycles_inv (fold (\<lambda>start st. dfs adjacency start start 1 [start] [start] st) nodeIds ([], []))"
  by (rule fold_dfs_inv) (simp add: cycles_inv_def)

lemma sort_eq_of_set_eq:
  fixes xs ys :: "'a::linorder list"
  assumes "distinct xs" "distinct ys" "set xs = set ys"
  shows "sort xs = sort ys"
  using assms by (intro sorted_distinct_set_unique) auto

text \<open>
  C7. Every cycle the detector reports has between three and five members, all distinct.
  So a two-cycle (A to B and back), a cycle of six or more accounts and a self-loop are
  never reported.
\<close>

theorem detectCycles_length_3_to_5:
  "\<forall>c \<in> set (detectCycles adjacency nodeIds). 3 \<le> length c \<and> length c \<le> 5 \<and> distinct c"
  using detectCycles_inv[of adjacency nodeIds]
  by (simp add: cycles_inv_def detectCycles_def list_all_iff)

text \<open>
  On a batch with a self-loop, a two-cycle and a triangle, the triangle is the only cycle
  reported.
\<close>

theorem detectCycles_length_3_to_5_witness:
  "det_cycles (detect loops_batch) = [[''A'', ''B'', ''C'']]
   \<and> 3 \<le> length [''A'', ''B'', ''C''] \<and> length [''A'', ''B'', ''C''] \<le> 5
   \<and> distinct [''A'', ''B'', ''C'']"
proof -
  have cs: "det_cycles (detect loops_batch) = [[''A'', ''B'', ''C'']]"
    unfolding loops_batch_def transfer_def by code_simp
  have run: "det_cycles (detect loops_batch)
      = detectCycles (graph_adjacency (buildGraph loops_batch))
          (map fst (graph_nodes (buildGraph loops_batch)))"
    by (simp add: detect_def Let_def split: prod.split)
  have "[''A'', ''B'', ''C''] \<in> set (detectCycles (graph_adjacency (buildGraph loops_batch))
          (map fst (graph_nodes (buildGraph loops_batch))))"
    using cs unfolding run by simp
  with detectCycles_length_3_to_5 have
    "3 \<le> length [''A'', ''B'', ''C''] \<and> length [''A'', ''B'', ''C''] \<le> 5 \<and> distinct [''A'', ''B'', ''C'']"
    by blast
  with cs show ?thesis by blast
qed

text \<open>
  C3, as the code has it. The key of a cycle is its sorted member list, so the detector
  keeps one entry per member set: no two reported cycles have the same members. Of the
  two directions of a cycle only the one found first is reported.
\<close>

theorem detectCycles_one_per_member_set:
  assumes "i < j" "j < length (detectCycles adjacency nodeIds)"
  shows "set (detectCycles adjacency nodeIds ! i) \<noteq> set (detectCycles adjacency nodeIds ! j)"
proof
  let ?cs = "detectCycles adjacency nodeIds"
  assume eq: "set (?cs ! i) = set (?cs ! j)"
  have inv: "cycles_inv (fold (\<lambda>start st. dfs adjacency start start 1 [start] [start] st) nodeIds ([], []))"
    by (rule detectCycles_inv)
  let ?st = "fold (\<lambda>start st. dfs adjacency start start 1 [start] [start] st) nodeIds ([], [])"
  have k: "fst ?st = map cycleKey (snd ?st)" and dk: "distinct (fst ?st)"
    using inv by (auto simp: cycles_inv_def)
  have d: "distinct (map cycleKey ?cs)"
    using dk unfolding k detectCycles_def .
  have di: "distinct (?cs ! i)" and dj: "distinct (?cs ! j)"
    using inv assms by (auto simp: cycles_inv_def detectCycles_def list_all_length)
  have "cycleKey (?cs ! i) = cycleKey (?cs ! j)"
    unfolding cycleKey_def using sort_eq_of_set_eq[OF di dj eq] by simp
  with d assms show False
    by (auto simp: distinct_conv_nth)
qed


theorem detectCycles_one_per_member_set_witness:
  "(0::nat) < 1 \<and> 1 < length (det_cycles (detect overlapping_cycles_batch))
   \<and> set (det_cycles (detect overlapping_cycles_batch) ! 0)
       \<noteq> set (det_cycles (detect overlapping_cycles_batch) ! 1)"
proof -
  have cs: "det_cycles (detect overlapping_cycles_batch)
      = [[''A'', ''B'', ''C''], [''D'', ''E'', ''F''], [''F'', ''C'', ''W'']]"
    unfolding overlapping_cycles_batch_def transfer_def by code_simp
  have run: "det_cycles (detect overlapping_cycles_batch)
      = detectCycles (graph_adjacency (buildGraph overlapping_cycles_batch))
          (map fst (graph_nodes (buildGraph overlapping_cycles_batch)))"
    by (simp add: detect_def Let_def split: prod.split)
  have len: "1 < length (det_cycles (detect overlapping_cycles_batch))"
    unfolding cs by simp
  have "set (det_cycles (detect overlapping_cycles_batch) ! 0)
       \<noteq> set (det_cycles (detect overlapping_cycles_batch) ! 1)"
    using detectCycles_one_per_member_set[of 0 1] len unfolding run by simp
  with len show ?thesis by simp
qed

text \<open>
  The claim as the specification words it fails on the batch that holds the triangle
  A, B, C in both directions: one entry is reported, not two.
\<close>

theorem both_directions_reported_once:
  "det_cycles (detect both_directions_batch) = [[''A'', ''B'', ''C'']]"
  unfolding both_directions_batch_def transfer_def by code_simp

section \<open>Rings that the report should not hold\<close>

text \<open>
  The filter consults \<open>cvBelow\<close> on the arrays of \<open>bySender\<close> only: two outcome
  functions that agree on the payroll test of every sender's array give the same report.
\<close>

lemma filterSender_cong:
  "isPayroll t (snd entry) = isPayroll t' (snd entry)
   \<Longrightarrow> filterSender t entry nodes = filterSender t' entry nodes"
  by (cases entry) (simp add: filterSender_def split: option.split)

lemma fold_filterSender_cong:
  "list_all (\<lambda>entry. isPayroll t (snd entry) = isPayroll t' (snd entry)) entries
   \<Longrightarrow> fold (filterSender t) entries nodes = fold (filterSender t') entries nodes"
proof (induction entries arbitrary: nodes)
  case Nil
  show ?case by simp
next
  case (Cons entry entries)
  have one: "filterSender t entry nodes = filterSender t' entry nodes"
    using Cons.prems by (intro filterSender_cong) simp
  have rest: "list_all (\<lambda>entry. isPayroll t (snd entry) = isPayroll t' (snd entry)) entries"
    using Cons.prems by simp
  show ?case
    using Cons.IH[OF rest, of "filterSender t' entry nodes"] by (simp add: one)
qed

lemma analyzeTransactions_cong:
  assumes "list_all (\<lambda>entry. isPayroll t (snd entry) = isPayroll t' (snd entry))
             (amountsBySender (graph_edges (det_graph (detect transactions))))"
  shows "analyzeTransactions t ringCounter startTime endTime transactions
           = analyzeTransactions t' ringCounter startTime endTime transactions"
proof -
  have "det_filtered t transactions = det_filtered t' transactions"
    unfolding det_filtered_def Let_def filterFalsePositives_def
    by (rule fold_filterSender_cong) (rule assms)
  then show ?thesis by (simp add: analyzeTransactions_def)
qed

lemma few_amounts_cong:
  assumes "list_all (\<lambda>entry. length (snd entry) < 10)
             (amountsBySender (graph_edges (det_graph (detect transactions))))"
  shows "analyzeTransactions t ringCounter startTime endTime transactions
           = analyzeTransactions t' ringCounter startTime endTime transactions"
proof (rule analyzeTransactions_cong)
  show "list_all (\<lambda>entry. isPayroll t (snd entry) = isPayroll t' (snd entry))
          (amountsBySender (graph_edges (det_graph (detect transactions))))"
    using assms by (auto simp: list_all_iff isPayroll_def)
qed

text \<open>
  C2. The specification wants every account in at most one ring. The merging pass does
  not achieve it: a cycle that touches two existing groups joins the group of its first
  mapped member, and its other members stay in the group they were in. On the batch
  of three triangles, account C is a member of both \<open>RING_001\<close> and \<open>RING_002\<close>,
  whatever the payroll test answers (no sender of the batch has ten transactions).
\<close>

theorem overlapping_cycles_share_an_account:
  "map (\<lambda>r. (ring_id r, member_accounts r))
       (fraud_rings (fst (analyzeTransactions cvBelow 0 0 0 overlapping_cycles_batch)))
   = [(''RING_001'', [''A'', ''B'', ''C'']),
      (''RING_002'', [''D'', ''E'', ''F'', ''C'', ''W''])]"
proof -
  have few: "list_all (\<lambda>entry. length (snd entry) < 10)
               (amountsBySender (graph_edges (det_graph (detect overlapping_cycles_batch))))"
    unfolding overlapping_cycles_batch_def transfer_def by code_simp
  have "map (\<lambda>r. (ring_id r, member_accounts r))
          (fraud_rings (fst (analyzeTransactions amountsAll1000 0 0 0 overlapping_cycles_batch)))
        = [(''RING_001'', [''A'', ''B'', ''C'']),
           (''RING_002'', [''D'', ''E'', ''F'', ''C'', ''W''])]"
    unfolding overlapping_cycles_batch_def transfer_def by code_simp
  then show ?thesis
    unfolding few_amounts_cong[OF few, of cvBelow 0 0 0 amountsAll1000] .
qed

text \<open>
  C1. On the payroll scenario, P sends fifteen amounts of 1000, on which the payroll
  test of the engine passes (the double computation is exact there, see
  \<open>amountsAll1000\<close>). The filter then clears P (it is not in \<open>suspicious_accounts\<close>),
  but the ring assembler reads the detector's fan-out set, not the filtered tags, and
  still reports a fan-out ring whose only member is P.
\<close>

theorem payroll_sender_still_in_a_ring:
  assumes "cvBelow (replicate 15 1000)"
  shows "suspicious_accounts (fst (analyzeTransactions cvBelow 0 0 0 payroll_batch)) = []
   \<and> map (\<lambda>r. (ring_id r, member_accounts r, pattern_type r))
          (fraud_rings (fst (analyzeTransactions cvBelow 0 0 0 payroll_batch)))
       = [(''RING_001'', [''P''], ring_fan_out)]"
proof -
  have senders: "amountsBySender (graph_edges (det_graph (detect payroll_batch)))
                   = [(''P'', replicate 15 1000)]"
    unfolding payroll_batch_def transfer_def by code_simp
  have pass: "amountsAll1000 (replicate 15 1000)"
    by (simp add: amountsAll1000_def list_all_iff)
  have same: "analyzeTransactions cvBelow 0 0 0 payroll_batch
                = analyzeTransactions amountsAll1000 0 0 0 payroll_batch"
    by (rule analyzeTransactions_cong) (simp add: senders isPayroll_def assms pass)
  have "suspicious_accounts (fst (analyzeTransactions amountsAll1000 0 0 0 payroll_batch)) = []
   \<and> map (\<lambda>r. (ring_id r, member_accounts r, pattern_type r))
          (fraud_rings (fst (analyzeTransactions amountsAll1000 0 0 0 payroll_batch)))
       = [(''RING_001'', [''P''], ring_fan_out)]"
    unfolding payroll_batch_def transfer_def by code_simp
  then show ?thesis unfolding same .
qed

theorem payroll_sender_still_in_a_ring_witness:
  "amountsAll1000 (replicate 15 1000)
   \<and> suspicious_accounts (fst (analyzeTransactions amountsAll1000 0 0 0 payroll_batch)) = []
   \<and> map (\<lambda>r. (ring_id r, member_accounts r, pattern_type r))
          (fraud_rings (fst (analyzeTransactions amountsAll1000 0 0 0 payroll_batch)))
       = [(''RING_001'', [''P''], ring_fan_out)]"
proof -
  have pass: "amountsAll1000 (replicate 15 1000)"
    by (simp add: amountsAll1000_def list_all_iff)
  from pass payroll_sender_still_in_a_ring[of amountsAll1000] show ?thesis by simp
qed

text \<open>
  C9. A payroll sender that is also a high-velocity sender (twenty amounts of 1000, on
  which the payroll test of the engine passes as well) keeps \<open>high_velocity\<close> as its
  only tag, with score 10, and yet is the member of the fan-out ring and carries its id.
\<close>

theorem velocity_only_account_in_a_ring:
  assumes "cvBelow (replicate 20 1000)"
  shows "suspicious_accounts (fst (analyzeTransactions cvBelow 0 0 0 velocity_payroll_batch))
     = [\<lparr>account_id = ''H'', suspicion_score = 10, detected_patterns = [high_velocity],
         account_ring_id = Some ''RING_001''\<rparr>]
   \<and> map (\<lambda>r. (ring_id r, member_accounts r, pattern_type r))
          (fraud_rings (fst (analyzeTransactions cvBelow 0 0 0 velocity_payroll_batch)))
       = [(''RING_001'', [''H''], ring_fan_out)]"
proof -
  have senders: "amountsBySender (graph_edges (det_graph (detect velocity_payroll_batch)))
                   = [(''H'', replicate 20 1000)]"
    unfolding velocity_payroll_batch_def transfer_def by code_simp
  have pass: "amountsAll1000 (replicate 20 1000)"
    by (simp add: amountsAll1000_def list_all_iff)
  have same: "analyzeTransactions cvBelow 0 0 0 velocity_payroll_batch
                = analyzeTransactions amountsAll1000 0 0 0 velocity_payroll_batch"
    by (rule analyzeTransactions_cong) (simp add: senders isPayroll_def assms pass)
  have "suspicious_accounts (fst (analyzeTransactions amountsAll1000 0 0 0 velocity_payroll_batch))
     = [\<lparr>account_id = ''H'', suspicion_score = 10, detected_patterns = [high_velocity],
         account_ring_id = Some ''RING_001''\<rparr>]
   \<and> map (\<lambda>r. (ring_id r, member_accounts r, pattern_type r))
          (fraud_rings (fst (analyzeTransactions amountsAll1000 0 0 0 velocity_payroll_batch)))
       = [(''RING_001'', [''H''], ring_fan_out)]"
    unfolding velocity_payroll_batch_def transfer_def by code_simp
  then show ?thesis unfolding same .
qed

theorem velocity_only_account_in_a_ring_witness:
  "amountsAll1000 (replicate 20 1000)
   \<and> suspicious_accounts (fst (analyzeTransactions amountsAll1000 0 0 0 velocity_payroll_batch))
     = [\<lparr>account_id = ''H'', suspicion_score = 10, detected_patterns = [high_velocity],
         account_ring_id = Some ''RING_001''\<rparr>]
   \<and> map (\<lambda>r. (ring_id r, member_accounts r, pattern_type r))
          (fraud_rings (fst (analyzeTransactions amountsAll1000 0 0 0 velocity_payroll_batch)))
       = [(''RING_001'', [''H''], ring_fan_out)]"
proof -
  have pass: "amountsAll1000 (replicate 20 1000)"
    by (simp add: amountsAll1000_def list_all_iff)
  from pass velocity_only_account_in_a_ring[of amountsAll1000] show ?thesis by simp
qed

section \<open>Scores, tags and the suspicious flag\<close>

lemmas weights = SCORES_cycle_def SCORES_fanIn_def SCORES_fanOut_def SCORES_shell_def SCORES_velocity_def

lemma tagWeight_pos: "tagWeight p \<ge> 10"
  by (cases p) (simp_all add: weights)

lemma sum_weights_nonneg: "0 \<le> sum_list (map tagWeight ps)"
proof (induction ps)
  case Nil
  then show ?case by simp
next
  case (Cons p ps)
  with tagWeight_pos[of p] show ?case by simp
qed

lemma sum_weights_pos: "ps \<noteq> [] \<Longrightarrow> 0 < sum_list (map tagWeight ps)"
proof (cases ps)
  case Nil
  then show "ps \<noteq> [] \<Longrightarrow> ?thesis" by simp
next
  case (Cons p qs)
  have "10 \<le> tagWeight p" by (rule tagWeight_pos)
  moreover have "0 \<le> sum_list (map tagWeight qs)" by (rule sum_weights_nonneg)
  ultimately show ?thesis using Cons by simp
qed

lemma tags_inv_score_invariant: "tags_inv n \<Longrightarrow> score_invariant n"
proof -
  assume a: "tags_inv n"
  show ?thesis
  proof (cases "detectedPatterns n = []")
    case True
    with a show ?thesis by (simp add: tags_inv_def score_invariant_def)
  next
    case False
    from sum_weights_pos[OF False] a False show ?thesis
      by (simp add: tags_inv_def score_invariant_def)
  qed
qed

lemma scoreNode_tags_inv:
  "tags_inv (scoreNode cycleNodes fanInAccounts fanOutAccounts shellAccounts highVelocity i node)"
  by (simp add: scoreNode_def tags_inv_def Let_def weights split: option.split)


lemma filter_neq_absent: "x \<notin> set ps \<Longrightarrow> filter (\<lambda>p. p \<noteq> x) ps = ps"
  by (induction ps) auto

lemma sum_list_split_distinct:
  fixes f :: "'a \<Rightarrow> real"
  shows "distinct ps \<Longrightarrow> x \<in> set ps
    \<Longrightarrow> sum_list (map f ps) = f x + sum_list (map f (filter (\<lambda>p. p \<noteq> x) ps))"
  by (induction ps) (auto simp: filter_neq_absent)

lemma no_cycle_weight_bound:
  assumes "distinct ps" "\<not> list_ex startsWithCycle ps"
  shows "sum_list (map tagWeight ps) \<le> 80"
proof -
  let ?S = "{fan_in, fan_out, shell_chain, high_velocity}"
  have sub: "set ps \<subseteq> ?S"
  proof
    fix p assume "p \<in> set ps"
    with assms(2) have "\<not> startsWithCycle p" by (auto simp: list_ex_iff)
    then show "p \<in> ?S" by (cases p) auto
  qed
  have "sum_list (map tagWeight ps) = sum tagWeight (set ps)"
    using assms(1) by (simp add: sum_list_distinct_conv_sum_set)
  also have "\<dots> \<le> sum tagWeight ?S"
    using sub by (intro sum_mono2) (auto simp: weights)
  also have "\<dots> = 80" by (simp add: weights)
  finally show ?thesis .
qed

lemma removeFanOut_tags_inv:
  assumes inv: "tags_inv n"
    and mem: "fan_out \<in> set (detectedPatterns n)"
    and nocyc: "\<not> list_ex startsWithCycle (detectedPatterns n)"
  shows "tags_inv (removeFanOut n)"
proof -
  let ?ps = "detectedPatterns n"
  let ?qs = "filter (\<lambda>p. p \<noteq> fan_out) ?ps"
  have d: "distinct ?ps" and sc: "suspicionScore n = min 100 (sum_list (map tagWeight ?ps))"
    using inv by (auto simp: tags_inv_def)
  have split: "sum_list (map tagWeight ?ps) = 25 + sum_list (map tagWeight ?qs)"
    using sum_list_split_distinct[OF d mem, of tagWeight] by (simp add: weights)
  have bound: "sum_list (map tagWeight ?ps) \<le> 80"
    by (rule no_cycle_weight_bound[OF d nocyc])
  have nn: "0 \<le> sum_list (map tagWeight ?qs)" by (rule sum_weights_nonneg)
  have sc': "max 0 (suspicionScore n - SCORES_fanOut) = sum_list (map tagWeight ?qs)"
    using sc split bound nn by (simp add: weights)
  have le: "sum_list (map tagWeight ?qs) \<le> 100"
    using split bound by simp
  show ?thesis
  proof (cases "?qs = []")
    case True
    then show ?thesis by (simp add: removeFanOut_def tags_inv_def Let_def)
  next
    case False
    moreover from False have "?ps \<noteq> []" by auto
    ultimately show ?thesis
      using inv d sc' le by (simp add: removeFanOut_def tags_inv_def Let_def)
  qed
qed

lemma list_all_map_mutate:
  assumes "list_all (\<lambda>(k, v). P v) m"
    and "\<And>v. map_of m k = Some v \<Longrightarrow> P v \<Longrightarrow> P (f v)"
  shows "list_all (\<lambda>(k, v). P v) (map_mutate k f m)"
  using assms unfolding map_mutate_def
proof (induction m)
  case Nil
  then show ?case by simp
next
  case (Cons p m)
  show ?case
  proof (cases "fst p = k")
    case True
    with Cons.prems show ?thesis by (cases p) auto
  next
    case False
    with Cons.prems have "list_all (\<lambda>(k, v). P v) (AList.map_entry k f m)"
      by (intro Cons.IH) (auto split: if_splits)
    with False Cons.prems(1) show ?thesis by (cases p) auto
  qed
qed

lemma filterSender_tags_inv:
  assumes "list_all (\<lambda>(k, v). tags_inv v) nodes"
  shows "list_all (\<lambda>(k, v). tags_inv v) (filterSender cvBelow entry nodes)"
proof (cases entry)
  case (Pair sender amounts)
  show ?thesis
  proof (cases "map_of nodes sender")
    case None
    with Pair assms show ?thesis by (simp add: filterSender_def)
  next
    case (Some node)
    show ?thesis
    proof (cases "isPayroll cvBelow amounts \<and> fan_out \<in> set (detectedPatterns node)
                   \<and> \<not> list_ex startsWithCycle (detectedPatterns node)")
      case True
      have "list_all (\<lambda>(k, v). tags_inv v) (map_mutate sender removeFanOut nodes)"
        using assms Some True by (intro list_all_map_mutate) (auto intro: removeFanOut_tags_inv)
      with Pair Some True show ?thesis by (simp add: filterSender_def)
    next
      case False
      with Pair Some assms show ?thesis by (auto simp: filterSender_def)
    qed
  qed
qed

lemma filterFalsePositives_tags_inv:
  assumes "list_all (\<lambda>(k, v). tags_inv v) nodes"
  shows "list_all (\<lambda>(k, v). tags_inv v) (filterFalsePositives cvBelow nodes edges)"
proof -
  have "list_all (\<lambda>(k, v). tags_inv v) (fold (filterSender cvBelow) entries nodes)" for entries
    using assms by (induction entries arbitrary: nodes) (auto intro: filterSender_tags_inv)
  then show ?thesis by (simp add: filterFalsePositives_def)
qed

lemma scoreAccounts_tags_inv:
  "list_all (\<lambda>(k, v). tags_inv v)
     (scoreAccounts nodes cycleNodes fanInAccounts fanOutAccounts shellAccounts highVelocity)"
  by (simp add: scoreAccounts_def list_all_iff scoreNode_tags_inv split: prod.split)

text \<open>The ring assembler writes \<open>ringId\<close> and nothing else.\<close>

lemma fold_map_mutate_pres:
  assumes "list_all (\<lambda>(k, v). P v) nodes" and "\<And>v. P v \<Longrightarrow> P (f v)"
  shows "list_all (\<lambda>(k, v). P v) (fold (\<lambda>acc ns. map_mutate acc f ns) arr nodes)"
  using assms(1)
proof (induction arr arbitrary: nodes)
  case Nil
  then show ?case by simp
next
  case (Cons a arr)
  have "list_all (\<lambda>(k, v). P v) (map_mutate a f nodes)"
    using Cons.prems assms(2) by (intro list_all_map_mutate) auto
  from Cons.IH[OF this] show ?case by simp
qed

lemma cycleRing_pres:
  assumes "\<And>v x. P v \<Longrightarrow> P (v\<lparr>ringId := x\<rparr>)" and "list_all (\<lambda>(k, v). P v) (snd st)"
  shows "list_all (\<lambda>(k, v). P v) (snd (cycleRing entry st))"
  using assms by (cases entry; cases st) (auto simp: cycleRing_def intro!: fold_map_mutate_pres)

lemma fold_cycleRing_pres:
  assumes "\<And>v x. P v \<Longrightarrow> P (v\<lparr>ringId := x\<rparr>)" and "list_all (\<lambda>(k, v). P v) (snd st)"
  shows "list_all (\<lambda>(k, v). P v) (snd (fold cycleRing groups st))"
  using assms(2)
proof (induction groups arbitrary: st)
  case Nil
  then show ?case by simp
next
  case (Cons g groups)
  have "list_all (\<lambda>(k, v). P v) (snd (cycleRing g st))"
    using assms(1) Cons.prems by (rule cycleRing_pres)
  from Cons.IH[OF this] show ?case by simp
qed

lemma candidateRing_pres:
  assumes "\<And>v x. P v \<Longrightarrow> P (v\<lparr>ringId := x\<rparr>)" and "list_all (\<lambda>(k, v). P v) (snd (snd st))"
  shows "list_all (\<lambda>(k, v). P v) (snd (snd (candidateRing pattern arr st)))"
  using assms
  by (cases st) (auto simp: candidateRing_def Let_def intro!: fold_map_mutate_pres)

lemma assembleFraudRings_pres:
  assumes p: "\<And>v x. P v \<Longrightarrow> P (v\<lparr>ringId := x\<rparr>)" and a: "list_all (\<lambda>(k, v). P v) nodes"
  shows "list_all (\<lambda>(k, v). P v)
           (fst (snd (assembleFraudRings ringCounter cycles fanInAccounts fanOutAccounts shellAccounts nodes)))"
proof -
  obtain rc1 ringIdMap cycleGroups where m: "fold mergeCycle cycles (0, [], []) = (rc1, ringIdMap, cycleGroups)"
    by (cases "fold mergeCycle cycles (0, [], [])") auto
  obtain rings1 nodes1 where c: "fold cycleRing cycleGroups ([], nodes) = (rings1, nodes1)"
    by (cases "fold cycleRing cycleGroups ([], nodes)") auto
  have n1: "list_all (\<lambda>(k, v). P v) nodes1"
    using fold_cycleRing_pres[of P "([], nodes)" cycleGroups, OF p] a c by simp
  let ?fi = "filter (\<lambda>acc. \<not> map_has ringIdMap acc) fanInAccounts"
  let ?fo = "filter (\<lambda>acc. \<not> map_has ringIdMap acc \<and> acc \<notin> set fanInAccounts) fanOutAccounts"
  let ?sh = "filter (\<lambda>acc. \<not> map_has ringIdMap acc \<and> acc \<notin> set fanInAccounts
                                         \<and> acc \<notin> set fanOutAccounts) shellAccounts"
  let ?s1 = "candidateRing ring_fan_in ?fi (rc1, rings1, nodes1)"
  let ?s2 = "candidateRing ring_fan_out ?fo ?s1"
  let ?s3 = "candidateRing ring_shell_chain ?sh ?s2"
  have n1': "list_all (\<lambda>(k, v). P v) (snd (snd (rc1, rings1, nodes1)))"
    using n1 by simp
  have h1: "list_all (\<lambda>(k, v). P v) (snd (snd ?s1))"
    by (rule candidateRing_pres[where P = P and st = "(rc1, rings1, nodes1)", OF p n1'])
  have h2: "list_all (\<lambda>(k, v). P v) (snd (snd ?s2))"
    by (rule candidateRing_pres[where P = P and st = "?s1", OF p h1])
  have h3: "list_all (\<lambda>(k, v). P v) (snd (snd ?s3))"
    by (rule candidateRing_pres[where P = P and st = "?s2", OF p h2])
  then show ?thesis
    by (cases ?s3) (simp add: assembleFraudRings_def m c Let_def)
qed

text \<open>
  C4. For every batch and every node: the node is suspicious iff its score is positive
  iff it has a tag, and the score lies between 0 and 100. This holds after scoring, after
  the payroll filter, and in the node table of the result.
\<close>

theorem score_invariants_hold:
  "list_all (\<lambda>(k, n). score_invariant n) (det_scored (detect transactions))
   \<and> list_all (\<lambda>(k, n). score_invariant n) (det_filtered cvBelow transactions)
   \<and> list_all (\<lambda>(k, n). score_invariant n)
        (result_nodes (fst (analyzeTransactions cvBelow ringCounter startTime endTime transactions)))"
proof -
  have s: "list_all (\<lambda>(k, v). tags_inv v) (det_scored (detect transactions))"
    by (simp add: detect_def Let_def scoreAccounts_tags_inv split: prod.split)
  have f: "list_all (\<lambda>(k, v). tags_inv v) (det_filtered cvBelow transactions)"
    using s by (simp add: det_filtered_def Let_def filterFalsePositives_tags_inv)
  have ring: "tags_inv v \<Longrightarrow> tags_inv (v\<lparr>ringId := x\<rparr>)" for v x
    by (simp add: tags_inv_def)
  have r: "list_all (\<lambda>(k, v). tags_inv v)
        (result_nodes (fst (analyzeTransactions cvBelow ringCounter startTime endTime transactions)))"
    using assembleFraudRings_pres[where P = tags_inv, OF ring f, of ringCounter
        "det_cycles (detect transactions)" "det_fanIn (detect transactions)"
        "det_fanOut (detect transactions)" "det_shell (detect transactions)"]
    by (cases "assembleFraudRings ringCounter (det_cycles (detect transactions))
          (det_fanIn (detect transactions)) (det_fanOut (detect transactions))
          (det_shell (detect transactions)) (det_filtered cvBelow transactions)")
       (simp add: analyzeTransactions_def Let_def)
  have imp: "list_all (\<lambda>(k, v). tags_inv v) ns \<Longrightarrow> list_all (\<lambda>(k, n). score_invariant n) ns" for ns
    by (auto simp: list_all_iff intro: tags_inv_score_invariant)
  from s f r show ?thesis by (auto intro: imp)
qed


theorem score_invariants_hold_witness:
  "list_all (\<lambda>(k, n). score_invariant n) (det_filtered amountsAll1000 velocity_payroll_batch)
   \<and> map (\<lambda>(k, n). (isSuspicious n, suspicionScore n, detectedPatterns n))
         (filter (\<lambda>(k, n). k = ''H'') (det_filtered amountsAll1000 velocity_payroll_batch))
       = [(True, 10, [high_velocity])]"
proof -
  have "map (\<lambda>(k, n). (isSuspicious n, suspicionScore n, detectedPatterns n))
         (filter (\<lambda>(k, n). k = ''H'') (det_filtered amountsAll1000 velocity_payroll_batch))
       = [(True, 10, [high_velocity])]"
    unfolding velocity_payroll_batch_def transfer_def by code_simp
  with score_invariants_hold[of velocity_payroll_batch amountsAll1000 0 0 0] show ?thesis by blast
qed

section \<open>The frame of the payroll filter\<close>



lemma push_to_map_of:
  "map_of (push_to m k v) = (map_of m)(k \<mapsto> (case map_of m k of None \<Rightarrow> [] | Some xs \<Rightarrow> xs) @ [v])"
  by (auto simp: push_to_def map_mutate_def map_set_def map_has_def map_of_map_entry update_conv'
           split: option.splits)

lemma push_to_distinct: "distinct (map fst m) \<Longrightarrow> distinct (map fst (push_to m k v))"
  by (simp add: push_to_def map_mutate_def map_set_def distinct_update distinct_map_entry)

lemma group_fold:
  fixes kf :: "'e \<Rightarrow> 'k" and vf :: "'e \<Rightarrow> 'v"
  defines "grp \<equiv> \<lambda>es. fold (\<lambda>e m. push_to m (kf e) (vf e)) es []"
  shows "distinct (map fst (grp es))"
    and "map_of (grp es) k = (if k \<in> kf ` set es then Some (map vf (filter (\<lambda>e. kf e = k) es)) else None)"
proof -
  have "distinct (map fst (grp es)) \<and>
        (\<forall>k. map_of (grp es) k = (if k \<in> kf ` set es then Some (map vf (filter (\<lambda>e. kf e = k) es)) else None))"
  proof (induction es rule: rev_induct)
    case Nil
    show ?case by (simp add: grp_def)
  next
    case (snoc e es)
    have step: "grp (es @ [e]) = push_to (grp es) (kf e) (vf e)"
      by (simp add: grp_def)
    have nf: "filter (\<lambda>ea. kf ea = kf e) es = []" if "kf e \<notin> kf ` set es"
      using that by (induction es) auto
    from snoc show ?case
      unfolding step by (auto simp: push_to_map_of push_to_distinct nf)
  qed
  then show "distinct (map fst (grp es))"
    and "map_of (grp es) k = (if k \<in> kf ` set es then Some (map vf (filter (\<lambda>e. kf e = k) es)) else None)"
    by auto
qed










section \<open>Ring identifiers are contiguous\<close>

lemma digit_cases:
  "d < 10 \<Longrightarrow> d = 0 \<or> d = 1 \<or> d = 2 \<or> d = 3 \<or> d = 4 \<or> d = 5 \<or> d = 6 \<or> d = 7 \<or> d = 8 \<or> d = (9::nat)"
  by arith

lemma digitValue_digitChar: "d < 10 \<Longrightarrow> digitValue (digitChar d) = d"
  by (drule digit_cases) (elim disjE; simp add: digitValue_def digitChar_def)

lemma isDigit_digitChar: "d < 10 \<Longrightarrow> isDigit (digitChar d)"
  by (drule digit_cases) (elim disjE; simp add: isDigit_def digitChar_def)

lemma parseDecimal_snoc: "parseDecimal (s @ [c]) = 10 * parseDecimal s + digitValue c"
  by (simp add: parseDecimal_def)

lemma parseDecimal_decimal: "parseDecimal (decimal n) = n"
proof (induction n rule: decimal.induct)
  case (1 n)
  show ?case
  proof (cases "n < 10")
    case True
    then show ?thesis
      by (subst decimal.simps) (simp add: parseDecimal_def digitValue_digitChar)
  next
    case False
    with 1 have "parseDecimal (decimal (n div 10)) = n div 10" by simp
    with False show ?thesis
      by (subst decimal.simps) (simp add: parseDecimal_snoc digitValue_digitChar)
  qed
qed

lemma parseDecimal_zeros: "parseDecimal (replicate k (CHR ''0'') @ s) = parseDecimal s"
proof -
  have "foldl (\<lambda>total c. 10 * total + digitValue c) 0 (replicate k (CHR ''0'')) = 0"
    by (induction k) (simp_all add: digitValue_def)
  then show ?thesis by (simp add: parseDecimal_def)
qed

lemma mkRingId_inj: "mkRingId a = mkRingId b \<Longrightarrow> a = b"
proof -
  assume "mkRingId a = mkRingId b"
  then have "padStart 3 (CHR ''0'') (decimal a) = padStart 3 (CHR ''0'') (decimal b)"
    by (simp add: mkRingId_def)
  then have "parseDecimal (padStart 3 (CHR ''0'') (decimal a)) = parseDecimal (padStart 3 (CHR ''0'') (decimal b))"
    by simp
  then show "a = b"
    by (simp add: padStart_def parseDecimal_zeros parseDecimal_decimal)
qed

lemma decimal_digits: "list_all isDigit (decimal n)"
proof (induction n rule: decimal.induct)
  case (1 n)
  show ?case
  proof (cases "n < 10")
    case True
    then show ?thesis by (subst decimal.simps) (simp add: isDigit_digitChar)
  next
    case False
    with 1 have "list_all isDigit (decimal (n div 10))" by simp
    with False show ?thesis by (subst decimal.simps) (simp add: isDigit_digitChar)
  qed
qed

lemma decimal_length: "n < 1000 \<Longrightarrow> length (decimal n) \<le> 3"
proof -
  assume n: "n < 1000"
  have one: "length (decimal m) = 1" if "m < 10" for m
    using that by (subst decimal.simps) simp
  have two: "length (decimal m) \<le> 2" if "m < 100" for m
  proof (cases "m < 10")
    case True
    then show ?thesis using one by simp
  next
    case False
    with that have "m div 10 < 10" by simp
    from one[OF this] False show ?thesis by (subst decimal.simps) simp
  qed
  show ?thesis
  proof (cases "n < 10")
    case True
    then show ?thesis using one by simp
  next
    case False
    with n have "n div 10 < 100" by simp
    from two[OF this] False show ?thesis by (subst decimal.simps) simp
  qed
qed

lemma mkRingId_format: "n < 1000 \<Longrightarrow> ringIdFormat (mkRingId n)"
proof -
  assume "n < 1000"
  then have len: "length (decimal n) \<le> 3" by (rule decimal_length)
  have zero: "isDigit (CHR ''0'')" by (simp add: isDigit_def)
  have "list_all isDigit (replicate (3 - length (decimal n)) (CHR ''0'') @ decimal n)"
    using zero decimal_digits[of n] by (auto simp: list_all_iff)
  then show ?thesis
    using len by (simp add: ringIdFormat_def mkRingId_def padStart_def)
qed


lemma assemble_unfold:
  "assembleFraudRings ringCounter cycles fanInAccounts fanOutAccounts shellAccounts nodes =
     (let st1 = fold mergeCycle cycles (0, [], []);
          ringIdMap = fst (snd st1);
          st2 = fold cycleRing (snd (snd st1)) ([], nodes);
          s3 = candidateRing ring_shell_chain
                 (filter (\<lambda>acc. \<not> map_has ringIdMap acc \<and> acc \<notin> set fanInAccounts
                                         \<and> acc \<notin> set fanOutAccounts) shellAccounts)
                 (candidateRing ring_fan_out
                    (filter (\<lambda>acc. \<not> map_has ringIdMap acc \<and> acc \<notin> set fanInAccounts) fanOutAccounts)
                    (candidateRing ring_fan_in
                       (filter (\<lambda>acc. \<not> map_has ringIdMap acc) fanInAccounts)
                       (fst st1, fst st2, snd st2)))
      in (fst (snd s3), snd (snd s3), fst s3))"
  by (simp add: assembleFraudRings_def Let_def split: prod.split)

lemma map_fst_map_mutate: "map fst (map_mutate k f m) = map fst m"
  unfolding map_mutate_def by (induction m) auto

lemma map_fst_map_set_fresh: "k \<notin> set (map fst m) \<Longrightarrow> map fst (map_set m k v) = map fst m @ [k]"
  unfolding map_set_def by (induction m) auto

lemma mkRingId_fresh: "mkRingId (Suc rc) \<notin> set (map mkRingId [1..<Suc rc])"
  by (auto dest: mkRingId_inj)

lemma mergeCycle_groups_inv: "groups_inv st \<Longrightarrow> groups_inv (mergeCycle cycle st)"
proof -
  assume inv: "groups_inv st"
  obtain rc m g where st: "st = (rc, m, g)" by (cases st)
  from inv st have keys: "map fst g = map mkRingId [1..<Suc rc]" by (simp add: groups_inv_def)
  show ?thesis
  proof (cases "findMerged m cycle = None \<or> findMerged m cycle = Some []")
    case True
    have "map fst (map_set g (mkRingId (Suc rc)) []) = map mkRingId [1..<Suc (Suc rc)]"
      using mkRingId_fresh[of rc] keys by (simp add: map_fst_map_set_fresh)
    with True st show ?thesis
      by (auto simp: groups_inv_def mergeCycle_def Let_def map_fst_map_mutate)
  next
    case False
    with st keys show ?thesis
      by (auto simp: groups_inv_def mergeCycle_def Let_def map_fst_map_mutate)
  qed
qed

lemma fold_mergeCycle_groups_inv: "groups_inv st \<Longrightarrow> groups_inv (fold mergeCycle cycles st)"
proof (induction cycles arbitrary: st)
  case Nil
  then show ?case by simp
next
  case (Cons c cycles)
  from Cons.IH[OF mergeCycle_groups_inv[OF Cons.prems]] show ?case by simp
qed

lemma fold_cycleRing_rings:
  "map (\<lambda>r. (ring_id r, member_accounts r, pattern_type r)) (fst (fold cycleRing groups st))
     = map (\<lambda>r. (ring_id r, member_accounts r, pattern_type r)) (fst st)
       @ map (\<lambda>(rid, members). (rid, members, ring_cycle)) groups"
proof (induction groups arbitrary: st)
  case Nil
  show ?case by simp
next
  case (Cons g groups)
  obtain rid members where g: "g = (rid, members)" by (cases g)
  obtain rings nodes where st: "st = (rings, nodes)" by (cases st)
  show ?case
    unfolding fold_Cons comp_apply Cons.IH by (simp add: g st cycleRing_def)
qed

lemma candidateRing_rings_inv: "rings_inv st \<Longrightarrow> rings_inv (candidateRing pattern arr st)"
  by (cases st) (auto simp: rings_inv_def candidateRing_def Let_def)

lemma candidateRing_patterns:
  "map pattern_type (fst (snd (candidateRing pattern arr st)))
     = map pattern_type (fst (snd st)) @ (if arr = [] then [] else [pattern])"
  by (cases st) (auto simp: candidateRing_def Let_def)

lemma candidateRing_counter:
  "fst (candidateRing pattern arr st) = fst st + (if arr = [] then 0 else 1)"
  by (cases st) (auto simp: candidateRing_def Let_def)

text \<open>What the assembler returns, whatever the counter it starts from.\<close>

lemma assemble_ring_ids:
  fixes ringCounter cycles fanInAccounts fanOutAccounts shellAccounts nodes
  defines "res \<equiv> assembleFraudRings ringCounter cycles fanInAccounts fanOutAccounts shellAccounts nodes"
  shows "map ring_id (fst res) = map mkRingId [1..<Suc (length (fst res))]"
    and "snd (snd res) = length (fst res)"
    and "\<exists>n fi fo sh. map pattern_type (fst res) = replicate n ring_cycle @ fi @ fo @ sh
           \<and> fi \<in> {[], [ring_fan_in]} \<and> fo \<in> {[], [ring_fan_out]} \<and> sh \<in> {[], [ring_shell_chain]}"
    and "length (fst res) \<ge> fst (fold mergeCycle cycles (0, [], []))"
proof -
  let ?st1 = "fold mergeCycle cycles (0, [], [])"
  let ?st2 = "fold cycleRing (snd (snd ?st1)) ([], nodes)"
  let ?m = "fst (snd ?st1)"
  let ?fi = "filter (\<lambda>acc. \<not> map_has ?m acc) fanInAccounts"
  let ?fo = "filter (\<lambda>acc. \<not> map_has ?m acc \<and> acc \<notin> set fanInAccounts) fanOutAccounts"
  let ?sh = "filter (\<lambda>acc. \<not> map_has ?m acc \<and> acc \<notin> set fanInAccounts
                                         \<and> acc \<notin> set fanOutAccounts) shellAccounts"
  let ?s0 = "(fst ?st1, fst ?st2, snd ?st2)"
  let ?s1 = "candidateRing ring_fan_in ?fi ?s0"
  let ?s2 = "candidateRing ring_fan_out ?fo ?s1"
  let ?s3 = "candidateRing ring_shell_chain ?sh ?s2"
  have res: "res = (fst (snd ?s3), snd (snd ?s3), fst ?s3)"
    unfolding res_def assemble_unfold Let_def ..
  have g: "groups_inv ?st1"
    by (rule fold_mergeCycle_groups_inv) (simp add: groups_inv_def)
  have r2: "map (\<lambda>r. (ring_id r, member_accounts r, pattern_type r)) (fst ?st2)
        = map (\<lambda>(rid, members). (rid, members, ring_cycle)) (snd (snd ?st1))"
    using fold_cycleRing_rings[of "snd (snd ?st1)" "([], nodes)"] by simp
  have ids2: "map ring_id (fst ?st2) = map fst (snd (snd ?st1))"
    using arg_cong[OF r2, of "map fst"] by (simp add: case_prod_unfold comp_def)
  have pats2: "map pattern_type (fst ?st2) = replicate (length (snd (snd ?st1))) ring_cycle"
    using arg_cong[OF r2, of "map (\<lambda>x. snd (snd x))"]
    by (simp add: case_prod_unfold comp_def map_replicate_const)
  have len1: "length (snd (snd ?st1)) = fst ?st1"
    using arg_cong[OF g[unfolded groups_inv_def], of length] by simp
  have "rings_inv ?s0"
    using g ids2 by (simp add: rings_inv_def groups_inv_def)
  then have "rings_inv ?s3"
    by (intro candidateRing_rings_inv)
  then have ids: "map ring_id (fst (snd ?s3)) = map mkRingId [1..<Suc (fst ?s3)]"
    by (simp add: rings_inv_def)
  from arg_cong[OF ids, of length] have len: "length (fst (snd ?s3)) = fst ?s3" by simp
  show "map ring_id (fst res) = map mkRingId [1..<Suc (length (fst res))]"
    using ids len by (simp add: res)
  show "snd (snd res) = length (fst res)"
    using len by (simp add: res)
  have "map pattern_type (fst (snd ?s3))
      = replicate (fst ?st1) ring_cycle @ (if ?fi = [] then [] else [ring_fan_in])
        @ (if ?fo = [] then [] else [ring_fan_out]) @ (if ?sh = [] then [] else [ring_shell_chain])"
    by (simp only: candidateRing_patterns fst_conv snd_conv pats2 len1 append_assoc)
  then show "\<exists>n fi fo sh. map pattern_type (fst res) = replicate n ring_cycle @ fi @ fo @ sh
           \<and> fi \<in> {[], [ring_fan_in]} \<and> fo \<in> {[], [ring_fan_out]} \<and> sh \<in> {[], [ring_shell_chain]}"
    unfolding res fst_conv by (intro exI conjI) (assumption, simp_all)
  have "fst ?s3 \<ge> fst ?st1"
    by (simp add: candidateRing_counter)
  with len show "length (fst res) \<ge> fst (fold mergeCycle cycles (0, [], []))"
    by (simp add: res)
qed


text \<open>On disjoint triangles every cycle opens a ring of its own.\<close>

lemma findMerged_unmapped:
  "(\<And>acc. acc \<in> set cycle \<Longrightarrow> map_of ringIdMap acc = None) \<Longrightarrow> findMerged ringIdMap cycle = None"
  by (induction cycle) auto

lemma fold_map_set_keys:
  "fst ` set (fold (\<lambda>acc m. map_set m acc v) cycle ringIdMap) = fst ` set ringIdMap \<union> set cycle"
proof (induction cycle arbitrary: ringIdMap)
  case Nil
  show ?case by simp
next
  case (Cons a cycle)
  have "fst ` set (map_set ringIdMap a v) = insert a (fst ` set ringIdMap)"
    unfolding map_set_def by (simp add: update_conv' flip: dom_map_of_conv_image_fst)
  then show ?case by (simp add: Cons.IH)
qed

lemma triangles_counter:
  "fst (fold mergeCycle (triangles n) (0, [], [])) = n
   \<and> (\<forall>k \<in> fst ` set (fst (snd (fold mergeCycle (triangles n) (0, [], [])))). length k \<le> 3 * n)"
proof (induction n)
  case 0
  show ?case by (simp add: triangles_def)
next
  case (Suc n)
  let ?st = "fold mergeCycle (triangles n) (0, [], [])"
  obtain rc m g where st: "?st = (rc, m, g)" by (cases ?st)
  from Suc st have rc: "rc = n" and keys: "\<forall>k \<in> fst ` set m. length k \<le> 3 * n" by auto
  have step: "fold mergeCycle (triangles (Suc n)) (0, [], []) = mergeCycle (triangle n) ?st"
    by (simp add: triangles_def)
  have unmapped: "map_of m acc = None" if "acc \<in> set (triangle n)" for acc
  proof (rule ccontr)
    assume "map_of m acc \<noteq> None"
    then have "acc \<in> fst ` set m" by (auto dest: map_of_SomeD intro: rev_image_eqI)
    with keys have "length acc \<le> 3 * n" by blast
    with that show False by (auto simp: triangle_def acct_def)
  qed
  have none: "findMerged m (triangle n) = None"
    by (rule findMerged_unmapped) (rule unmapped)
  have new: "mergeCycle (triangle n) (rc, m, g)
      = (rc + 1, fold (\<lambda>acc m. map_set m acc (mkRingId (rc + 1))) (triangle n) m,
         map_mutate (mkRingId (rc + 1)) (\<lambda>grp. fold (\<lambda>acc g. set_add g acc) (triangle n) grp)
           (map_set g (mkRingId (rc + 1)) []))"
    by (simp add: mergeCycle_def none Let_def)
  have "\<forall>k \<in> fst ` set (fold (\<lambda>acc m. map_set m acc (mkRingId (rc + 1))) (triangle n) m).
          length k \<le> 3 * Suc n"
    unfolding fold_map_set_keys using keys by (auto simp: triangle_def acct_def)
  then show ?case
    unfolding step st new using rc by simp
qed

lemma analyze_fraud_rings:
  "fraud_rings (fst (analyzeTransactions cvBelow ringCounter startTime endTime transactions))
     = fst (assembleFraudRings ringCounter (det_cycles (detect transactions))
              (det_fanIn (detect transactions)) (det_fanOut (detect transactions))
              (det_shell (detect transactions)) (det_filtered cvBelow transactions))"
  by (simp add: analyzeTransactions_def Let_def split: prod.split)

subsection \<open>The ring ids of the nodes\<close>

text \<open>
  The nodes of the graph have distinct keys and no \<open>ringId\<close>; the scorer writes the
  empty placeholder on the accounts of the cycles, and the payroll filter leaves
  \<open>ringId\<close> alone.
\<close>

lemma map_has_keys: "map_has m k \<longleftrightarrow> k \<in> set (map fst m)"
  by (simp add: map_has_def map_of_eq_None_iff)

lemma ensureNode_keys: "map fst (ensureNode ns i) = set_add (map fst ns) i"
  by (simp add: ensureNode_def map_has_keys set_add_def map_fst_map_set_fresh)

lemma addTransaction_keys:
  "map fst (graph_nodes (addTransaction tx g))
     = set_add (set_add (map fst (graph_nodes g)) (sender_id tx)) (receiver_id tx)"
  by (simp add: addTransaction_def Let_def map_fst_map_mutate ensureNode_keys)


lemma list_all_map_mutate_keyed:
  assumes "list_all (\<lambda>(k', v). P k' v) m" and "\<And>v. P k v \<Longrightarrow> P k (f v)"
  shows "list_all (\<lambda>(k', v). P k' v) (map_mutate k f m)"
  using assms unfolding map_mutate_def by (induction m) auto

lemma set_add_distinct: "distinct s \<Longrightarrow> distinct (set_add s x)"
  by (simp add: set_add_def)

lemma map_set_fresh: "k \<notin> fst ` set m \<Longrightarrow> map_set m k v = m @ [(k, v)]"
  unfolding map_set_def by (induction m) auto

lemma ensureNode_unassigned:
  "list_all (\<lambda>(k, v). ringId v = None) ns \<Longrightarrow> list_all (\<lambda>(k, v). ringId v = None) (ensureNode ns i)"
  by (simp add: ensureNode_def map_has_keys map_set_fresh)

lemma addTransaction_unassigned:
  assumes "list_all (\<lambda>(k, v). ringId v = None) (graph_nodes g)"
  shows "list_all (\<lambda>(k, v). ringId v = None) (graph_nodes (addTransaction tx g))"
  unfolding addTransaction_def Let_def
  by (simp, intro list_all_map_mutate ensureNode_unassigned assms) simp_all

lemma buildGraph_nodes:
  "distinct (map fst (graph_nodes (buildGraph transactions)))
   \<and> list_all (\<lambda>(k, v). ringId v = None) (graph_nodes (buildGraph transactions))"
proof -
  have "distinct (map fst (graph_nodes g)) \<and> list_all (\<lambda>(k, v). ringId v = None) (graph_nodes g)
        \<Longrightarrow> distinct (map fst (graph_nodes (fold addTransaction transactions g)))
          \<and> list_all (\<lambda>(k, v). ringId v = None) (graph_nodes (fold addTransaction transactions g))" for g
  proof (induction transactions arbitrary: g)
    case Nil
    then show ?case by simp
  next
    case (Cons tx transactions)
    have "distinct (map fst (graph_nodes (addTransaction tx g)))"
      using Cons.prems by (simp add: addTransaction_keys set_add_distinct)
    moreover have "list_all (\<lambda>(k, v). ringId v = None) (graph_nodes (addTransaction tx g))"
      using Cons.prems by (intro addTransaction_unassigned) simp
    ultimately show ?case using Cons.IH[of "addTransaction tx g"] by simp
  qed
  then show ?thesis by (simp add: buildGraph_def)
qed

lemma buildCycleNodes_info:
  "map_of (buildCycleNodes cycles) k = Some info \<Longrightarrow> snd info = [] \<and> k \<in> set (concat cycles)"
proof -
  have inner: "\<forall>k info. map_of (fold (\<lambda>acc m. case map_of m acc of
                              None \<Rightarrow> map_set m acc (n, [])
                            | Some info \<Rightarrow> if fst info > n
                                           then map_set m acc (n, []) else m) accs m) k = Some info
                 \<longrightarrow> snd info = [] \<and> k \<in> A \<union> set accs"
    if "\<forall>k info. map_of m k = Some info \<longrightarrow> snd info = [] \<and> k \<in> A"
    for accs n A and m :: "(account_id \<times> nat \<times> string) list"
    using that
  proof (induction accs arbitrary: m A)
    case Nil
    then show ?case by simp
  next
    case (Cons a accs)
    let ?m = "case map_of m a of None \<Rightarrow> map_set m a (n, [])
              | Some info \<Rightarrow> if fst info > n then map_set m a (n, []) else m"
    have "\<forall>k info. map_of ?m k = Some info \<longrightarrow> snd info = [] \<and> k \<in> insert a A"
      using Cons.prems by (auto simp: map_set_def update_conv' split: option.splits if_splits)
    from Cons.IH[OF this] show ?case by simp
  qed
  have outer: "\<forall>k info. map_of (fold (\<lambda>cycle m.
             fold (\<lambda>acc m. case map_of m acc of
                              None \<Rightarrow> map_set m acc (length cycle, [])
                            | Some info \<Rightarrow> if fst info > length cycle
                                           then map_set m acc (length cycle, []) else m)
                  cycle m) cycles m) k = Some info
                 \<longrightarrow> snd info = [] \<and> k \<in> A \<union> set (concat cycles)"
    if "\<forall>k info. map_of m k = Some info \<longrightarrow> snd info = [] \<and> k \<in> A"
    for A and m :: "(account_id \<times> nat \<times> string) list"
    using that
  proof (induction cycles arbitrary: m A)
    case Nil
    then show ?case by simp
  next
    case (Cons c cycles)
    from Cons.IH[OF inner[OF Cons.prems, of "length c" c]] show ?case
      by (simp add: Un_assoc)
  qed
  assume a: "map_of (buildCycleNodes cycles) k = Some info"
  have "\<forall>k info. map_of (buildCycleNodes cycles) k = Some info
          \<longrightarrow> snd info = [] \<and> k \<in> {} \<union> set (concat cycles)"
    unfolding buildCycleNodes_def by (rule outer) simp
  with a show ?thesis by blast
qed

lemma scoreNode_ringId:
  "ringId (scoreNode cycleNodes fanInAccounts fanOutAccounts shellAccounts highVelocity i node)
     = (case map_of cycleNodes i of Some info \<Rightarrow> Some (snd info) | None \<Rightarrow> ringId node)"
  by (simp add: scoreNode_def Let_def split: option.split prod.split)

lemma scoreAccounts_keys:
  "map fst (scoreAccounts nodes cycleNodes fanInAccounts fanOutAccounts shellAccounts highVelocity)
     = map fst nodes"
  by (simp add: scoreAccounts_def case_prod_unfold comp_def)

lemma scoreAccounts_unassigned:
  assumes "list_all (\<lambda>(k, v). ringId v = None) nodes"
  shows "list_all (\<lambda>(k, v). unassigned (set (concat cycles)) k v)
           (scoreAccounts nodes (buildCycleNodes cycles) fanInAccounts fanOutAccounts shellAccounts highVelocity)"
proof -
  have "unassigned (set (concat cycles)) k
          (scoreNode (buildCycleNodes cycles) fanInAccounts fanOutAccounts shellAccounts highVelocity k v)"
    if "ringId v = None" for k v
  proof (cases "map_of (buildCycleNodes cycles) k")
    case None
    with that show ?thesis by (simp add: unassigned_def scoreNode_ringId)
  next
    case (Some info)
    from buildCycleNodes_info[OF this] Some show ?thesis
      by (simp add: unassigned_def scoreNode_ringId)
  qed
  with assms show ?thesis
    by (auto simp: scoreAccounts_def list_all_iff)
qed

lemma removeFanOut_ringId: "ringId (removeFanOut node) = ringId node"
  by (simp add: removeFanOut_def Let_def)

lemma filterSender_keys: "map fst (filterSender cvBelow entry nodes) = map fst nodes"
  by (cases entry) (simp add: filterSender_def map_fst_map_mutate split: option.split)

lemma filterSender_unassigned:
  assumes "list_all (\<lambda>(k, v). unassigned C k v) nodes"
  shows "list_all (\<lambda>(k, v). unassigned C k v) (filterSender cvBelow entry nodes)"
proof -
  have "list_all (\<lambda>(k, v). unassigned C k v) (map_mutate sender removeFanOut nodes)" for sender
    using assms by (rule list_all_map_mutate_keyed) (simp add: unassigned_def removeFanOut_ringId)
  with assms show ?thesis
    by (cases entry) (simp add: filterSender_def split: option.split)
qed

lemma filterFalsePositives_unassigned:
  assumes "distinct (map fst nodes)" and "list_all (\<lambda>(k, v). unassigned C k v) nodes"
  shows "distinct (map fst (filterFalsePositives cvBelow nodes edges))
         \<and> list_all (\<lambda>(k, v). unassigned C k v) (filterFalsePositives cvBelow nodes edges)"
proof -
  have "distinct (map fst (fold (filterSender cvBelow) entries nodes))
         \<and> list_all (\<lambda>(k, v). unassigned C k v) (fold (filterSender cvBelow) entries nodes)" for entries
    using assms
  proof (induction entries arbitrary: nodes)
    case Nil
    then show ?case by simp
  next
    case (Cons e entries)
    have "distinct (map fst (filterSender cvBelow e nodes))"
      using Cons.prems by (simp add: filterSender_keys)
    moreover have "list_all (\<lambda>(k, v). unassigned C k v) (filterSender cvBelow e nodes)"
      using Cons.prems by (intro filterSender_unassigned)
    ultimately show ?case using Cons.IH by simp
  qed
  then show ?thesis by (simp add: filterFalsePositives_def)
qed

lemma det_filtered_unassigned:
  "distinct (map fst (det_filtered cvBelow transactions))
   \<and> list_all (\<lambda>(k, v). unassigned (set (concat (det_cycles (detect transactions)))) k v)
        (det_filtered cvBelow transactions)"
proof -
  let ?g = "buildGraph transactions"
  let ?cycles = "detectCycles (graph_adjacency ?g) (map fst (graph_nodes ?g))"
  have c: "det_cycles (detect transactions) = ?cycles"
    by (simp add: detect_def Let_def split: prod.split)
  obtain fi fo where sm: "detectSmurfing (graph_edges ?g) = (fi, fo)"
    by (cases "detectSmurfing (graph_edges ?g)")
  let ?scored = "scoreAccounts (graph_nodes ?g) (buildCycleNodes ?cycles) fi fo
                   (detectShellChains (graph_nodes ?g) (graph_adjacency ?g))
                   (detectHighVelocity (graph_edges ?g))"
  have f: "det_filtered cvBelow transactions = filterFalsePositives cvBelow ?scored (graph_edges ?g)"
    by (simp add: det_filtered_def detect_def Let_def sm)
  have d: "distinct (map fst ?scored)"
    using buildGraph_nodes[of transactions] by (simp add: scoreAccounts_keys)
  have u: "list_all (\<lambda>(k, v). unassigned (set (concat ?cycles)) k v) ?scored"
    using buildGraph_nodes[of transactions] by (intro scoreAccounts_unassigned) simp
  show ?thesis
    unfolding c f by (rule filterFalsePositives_unassigned[OF d u])
qed


text \<open>
  The merging pass puts every account of every cycle into a group: the id it merges a
  cycle into is the key of a group, since every id of \<open>ringIdMap\<close> is.
\<close>

lemma findMerged_Some:
  "findMerged m cycle = Some rid \<Longrightarrow> \<exists>acc. map_of m acc = Some rid"
  by (induction cycle) (auto split: option.splits)

lemma fold_map_set_of:
  "map_of (fold (\<lambda>acc m. map_set m acc v) cycle m) k = (if k \<in> set cycle then Some v else map_of m k)"
  by (induction cycle arbitrary: m) (auto simp: map_set_def update_conv')

lemma fold_set_add_set: "set (fold (\<lambda>acc g. set_add g acc) cycle grp) = set grp \<union> set cycle"
  by (induction cycle arbitrary: grp) (auto simp: set_add_def)

lemma map_of_map_mutate:
  "map_of (map_mutate k f m) = (map_of m)(k := map_option f (map_of m k))"
  by (auto simp: map_mutate_def map_of_map_entry split: option.split)

lemma mergeCycle_merge_inv:
  assumes "merge_inv A st"
  shows "merge_inv (A \<union> set cycle) (mergeCycle cycle st)"
proof -
  obtain rc m g where st: "st = (rc, m, g)" by (cases st)
  from assms st have keys: "map fst g = map mkRingId [1..<Suc rc]"
    by (simp add: merge_inv_def groups_inv_def)
  from assms st have vals: "\<And>acc rid. map_of m acc = Some rid \<Longrightarrow> map_of g rid \<noteq> None"
    by (simp add: merge_inv_def)
  from assms st have cov: "\<And>acc. acc \<in> A \<Longrightarrow> \<exists>rid members. map_of g rid = Some members \<and> acc \<in> set members"
    by (simp add: merge_inv_def)
  have gi: "groups_inv (mergeCycle cycle st)"
    using assms by (intro mergeCycle_groups_inv) (simp add: merge_inv_def)
  let ?F = "\<lambda>grp. fold (\<lambda>acc g. set_add g acc) cycle grp"
  show ?thesis
  proof (cases "findMerged m cycle = None \<or> findMerged m cycle = Some []")
    case True
    define new where "new = mkRingId (rc + 1)"
    have "new \<notin> set (map fst g)"
      unfolding keys new_def using mkRingId_fresh[of rc] by simp
    then have fresh: "map_of g new = None"
      by (simp add: map_of_eq_None_iff)
    have step: "mergeCycle cycle st
        = (rc + 1, fold (\<lambda>acc m. map_set m acc new) cycle m, map_mutate new ?F (map_set g new []))"
      using True by (auto simp: mergeCycle_def st Let_def new_def)
    have g': "map_of (map_mutate new ?F (map_set g new [])) = (map_of g)(new \<mapsto> ?F [])"
      by (simp add: map_of_map_mutate map_set_def update_conv')
    have v: "map_of (map_mutate new ?F (map_set g new [])) rid \<noteq> None"
      if "map_of (fold (\<lambda>acc m. map_set m acc new) cycle m) acc = Some rid" for acc rid
      using that vals[of acc rid] unfolding g' fold_map_set_of by (auto split: if_splits)
    have c: "\<exists>rid members. map_of (map_mutate new ?F (map_set g new [])) rid = Some members \<and> acc \<in> set members"
      if "acc \<in> A \<union> set cycle" for acc
    proof (cases "acc \<in> set cycle")
      case True
      then have "map_of (map_mutate new ?F (map_set g new [])) new = Some (?F []) \<and> acc \<in> set (?F [])"
        unfolding g' by (simp add: fold_set_add_set)
      then show ?thesis by blast
    next
      case False
      with that cov obtain rid members where r: "map_of g rid = Some members" "acc \<in> set members"
        by blast
      with fresh have "rid \<noteq> new" by auto
      with r have "map_of (map_mutate new ?F (map_set g new [])) rid = Some members \<and> acc \<in> set members"
        unfolding g' by simp
      then show ?thesis by blast
    qed
    from gi v c show ?thesis
      unfolding merge_inv_def step by (simp only: fst_conv snd_conv) blast
  next
    case False
    then obtain rid where found: "findMerged m cycle = Some rid" and ne: "rid \<noteq> []"
      by auto
    from findMerged_Some[OF found] vals obtain members0 where m0: "map_of g rid = Some members0"
      by blast
    have step: "mergeCycle cycle st
        = (rc, fold (\<lambda>acc m. map_set m acc rid) cycle m, map_mutate rid ?F g)"
      using found ne by (simp add: mergeCycle_def st Let_def)
    have g': "map_of (map_mutate rid ?F g) = (map_of g)(rid \<mapsto> ?F members0)"
      by (simp add: map_of_map_mutate m0)
    have v: "map_of (map_mutate rid ?F g) r \<noteq> None"
      if "map_of (fold (\<lambda>acc m. map_set m acc rid) cycle m) acc = Some r" for acc r
      using that vals[of acc r] unfolding g' fold_map_set_of by (auto split: if_splits)
    have c: "\<exists>r members. map_of (map_mutate rid ?F g) r = Some members \<and> acc \<in> set members"
      if "acc \<in> A \<union> set cycle" for acc
    proof (cases "acc \<in> set cycle")
      case True
      then have "map_of (map_mutate rid ?F g) rid = Some (?F members0) \<and> acc \<in> set (?F members0)"
        unfolding g' by (simp add: fold_set_add_set)
      then show ?thesis by blast
    next
      case False
      with that cov obtain r members where r: "map_of g r = Some members" "acc \<in> set members"
        by blast
      show ?thesis
      proof (cases "r = rid")
        case True
        with r m0 have "map_of (map_mutate rid ?F g) rid = Some (?F members0) \<and> acc \<in> set (?F members0)"
          unfolding g' by (simp add: fold_set_add_set)
        then show ?thesis by blast
      next
        case False
        with r have "map_of (map_mutate rid ?F g) r = Some members \<and> acc \<in> set members"
          unfolding g' by simp
        then show ?thesis by blast
      qed
    qed
    from gi v c show ?thesis
      unfolding merge_inv_def step by (simp only: fst_conv snd_conv) blast
  qed
qed

lemma fold_mergeCycle_merge_inv:
  "merge_inv A st \<Longrightarrow> merge_inv (A \<union> set (concat cycles)) (fold mergeCycle cycles st)"
proof (induction cycles arbitrary: A st)
  case Nil
  then show ?case by simp
next
  case (Cons c cycles)
  from Cons.IH[OF mergeCycle_merge_inv[OF Cons.prems, of c]] show ?case
    by (simp add: Un_assoc)
qed

lemma merged_groups_cover:
  assumes "acc \<in> set (concat cycles)"
  shows "acc \<in> \<Union> (set ` snd ` set (snd (snd (fold mergeCycle cycles (0, [], [])))))"
proof -
  have "merge_inv {} (0, [], [])"
    by (simp add: merge_inv_def groups_inv_def)
  from fold_mergeCycle_merge_inv[OF this, of cycles]
  have "\<forall>acc \<in> {} \<union> set (concat cycles). \<exists>rid members.
          map_of (snd (snd (fold mergeCycle cycles (0, [], [])))) rid = Some members \<and> acc \<in> set members"
    unfolding merge_inv_def by blast
  with assms obtain rid members
    where "map_of (snd (snd (fold mergeCycle cycles (0, [], [])))) rid = Some members"
      and "acc \<in> set members"
    by blast
  then have "(rid, members) \<in> set (snd (snd (fold mergeCycle cycles (0, [], []))))" "acc \<in> set members"
    by (auto dest: map_of_SomeD)
  then show ?thesis by force
qed


text \<open>
  The loop over the groups overwrites the \<open>ringId\<close> of every member with the id of the
  group, and so every placeholder; the candidate blocks write the id of their ring on
  nodes that have none.
\<close>

lemma list_all_map_mutate_distinct:
  assumes "distinct (map fst m)" and "list_all (\<lambda>(k', v). P k' v) m"
    and "\<And>v. P k v \<Longrightarrow> Q k (f v)" and "\<And>k' v. k' \<noteq> k \<Longrightarrow> P k' v \<Longrightarrow> Q k' v"
  shows "list_all (\<lambda>(k', v). Q k' v) (map_mutate k f m)"
  using assms(1,2) unfolding map_mutate_def
proof (induction m)
  case Nil
  show ?case by simp
next
  case (Cons p m)
  obtain k' v where p: "p = (k', v)" by (cases p)
  show ?case
  proof (cases "k' = k")
    case True
    have "Q a b" if "(a, b) \<in> set m" for a b
    proof -
      from that have "a \<in> fst ` set m" by force
      with Cons.prems(1) True p have "a \<noteq> k" by auto
      moreover from that Cons.prems(2) have "P a b" by (auto simp: list_all_iff)
      ultimately show ?thesis by (rule assms(4))
    qed
    then have "list_all (\<lambda>(k', v). Q k' v) m"
      by (auto simp: list_all_iff)
    with True p Cons.prems assms(3) show ?thesis by simp
  next
    case False
    with p Cons show ?thesis using assms(4) by simp
  qed
qed

lemma fold_assign_pending:
  assumes "distinct (map fst nodes)" and "list_all (\<lambda>(k, v). pending ids C S k v) nodes"
    and "rid \<in> set ids"
  shows "list_all (\<lambda>(k, v). pending ids C (S \<union> set members) k v)
           (fold (\<lambda>acc ns. map_mutate acc (\<lambda>node. node\<lparr>ringId := Some rid\<rparr>) ns) members nodes)"
  using assms(1,2)
proof (induction members arbitrary: nodes S)
  case Nil
  then show ?case by simp
next
  case (Cons a members)
  let ?nodes = "map_mutate a (\<lambda>node. node\<lparr>ringId := Some rid\<rparr>) nodes"
  have d: "distinct (map fst ?nodes)"
    using Cons.prems by (simp add: map_fst_map_mutate)
  have p: "list_all (\<lambda>(k, v). pending ids C (insert a S) k v) ?nodes"
    using Cons.prems
  proof (rule list_all_map_mutate_distinct)
    show "pending ids C (insert a S) a (v\<lparr>ringId := Some rid\<rparr>)" for v
      using assms(3) by (simp add: pending_def ringKnown_def)
    show "pending ids C (insert a S) k' v" if "k' \<noteq> a" "pending ids C S k' v" for k' v
      using that by (auto simp: pending_def)
  qed
  from Cons.IH[OF d p] show ?case by simp
qed

lemma fold_assign_keys:
  "map fst (fold (\<lambda>acc ns. map_mutate acc f ns) members nodes) = map fst nodes"
  by (induction members arbitrary: nodes) (simp_all add: map_fst_map_mutate)

lemma fold_cycleRing_pending:
  assumes "distinct (map fst (snd st))" and "list_all (\<lambda>(k, v). pending ids C S k v) (snd st)"
    and "fst ` set groups \<subseteq> set ids"
  shows "list_all (\<lambda>(k, v). pending ids C (S \<union> \<Union> (set ` snd ` set groups)) k v)
           (snd (fold cycleRing groups st))"
  using assms
proof (induction groups arbitrary: st S)
  case Nil
  then show ?case by simp
next
  case (Cons g groups)
  obtain rid members where g: "g = (rid, members)" by (cases g)
  obtain rings nodes where st: "st = (rings, nodes)" by (cases st)
  let ?nodes = "fold (\<lambda>acc ns. map_mutate acc (\<lambda>node. node\<lparr>ringId := Some rid\<rparr>) ns) members nodes"
  have s: "snd (cycleRing g st) = ?nodes"
    by (simp add: cycleRing_def g st)
  have d: "distinct (map fst (snd (cycleRing g st)))"
    using Cons.prems(1) unfolding s by (simp add: fold_assign_keys st)
  have p: "list_all (\<lambda>(k, v). pending ids C (S \<union> set members) k v) (snd (cycleRing g st))"
    unfolding s using Cons.prems by (intro fold_assign_pending) (simp_all add: st g)
  have i: "fst ` set groups \<subseteq> set ids"
    using Cons.prems(3) by simp
  from Cons.IH[OF d p i] show ?case
    by (simp add: g Un_assoc)
qed

lemma ringKnown_mono: "ringKnown ids r \<Longrightarrow> ringKnown (ids @ ids2) r"
  by (simp add: ringKnown_def split: option.splits)

lemma candidateRing_known:
  assumes "list_all (\<lambda>(k, v). ringKnown (map ring_id (fst (snd st))) (ringId v)) (snd (snd st))"
  shows "list_all (\<lambda>(k, v). ringKnown (map ring_id (fst (snd (candidateRing pattern arr st)))) (ringId v))
           (snd (snd (candidateRing pattern arr st)))"
proof (cases "length arr > 0")
  case False
  with assms show ?thesis by (cases st) (simp add: candidateRing_def)
next
  case True
  obtain rc rings nodes where st: "st = (rc, rings, nodes)" by (cases st)
  let ?ids = "map ring_id rings @ [mkRingId (Suc rc)]"
  have "list_all (\<lambda>(k, v). ringKnown ?ids (ringId v)) nodes"
    using assms by (auto simp: st list_all_iff intro: ringKnown_mono)
  then have "list_all (\<lambda>(k, v). ringKnown ?ids (ringId v))
          (fold (\<lambda>acc ns. map_mutate acc
                       (\<lambda>node. if ringId node = None \<or> ringId node = Some []
                                then node\<lparr>ringId := Some (mkRingId (Suc rc))\<rparr> else node) ns) arr nodes)"
    by (rule fold_map_mutate_pres) (simp add: ringKnown_def)
  with True show ?thesis
    by (simp add: candidateRing_def st Let_def)
qed


lemma assemble_nodes_known:
  fixes ringCounter cycles fanInAccounts fanOutAccounts shellAccounts nodes
  defines "res \<equiv> assembleFraudRings ringCounter cycles fanInAccounts fanOutAccounts shellAccounts nodes"
  assumes d: "distinct (map fst nodes)"
    and u: "list_all (\<lambda>(k, v). unassigned (set (concat cycles)) k v) nodes"
  shows "list_all (\<lambda>(k, v). ringKnown (map ring_id (fst res)) (ringId v)) (fst (snd res))"
proof -
  let ?st1 = "fold mergeCycle cycles (0, [], [])"
  let ?groups = "snd (snd ?st1)"
  let ?st2 = "fold cycleRing ?groups ([], nodes)"
  let ?m = "fst (snd ?st1)"
  let ?fi = "filter (\<lambda>acc. \<not> map_has ?m acc) fanInAccounts"
  let ?fo = "filter (\<lambda>acc. \<not> map_has ?m acc \<and> acc \<notin> set fanInAccounts) fanOutAccounts"
  let ?sh = "filter (\<lambda>acc. \<not> map_has ?m acc \<and> acc \<notin> set fanInAccounts
                                         \<and> acc \<notin> set fanOutAccounts) shellAccounts"
  let ?s0 = "(fst ?st1, fst ?st2, snd ?st2)"
  let ?s1 = "candidateRing ring_fan_in ?fi ?s0"
  let ?s2 = "candidateRing ring_fan_out ?fo ?s1"
  let ?s3 = "candidateRing ring_shell_chain ?sh ?s2"
  let ?C = "set (concat cycles)"
  have res: "res = (fst (snd ?s3), snd (snd ?s3), fst ?s3)"
    unfolding res_def assemble_unfold Let_def ..
  have r2: "map (\<lambda>r. (ring_id r, member_accounts r, pattern_type r)) (fst ?st2)
        = map (\<lambda>(rid, members). (rid, members, ring_cycle)) ?groups"
    using fold_cycleRing_rings[of ?groups "([], nodes)"] by simp
  have ids2: "map ring_id (fst ?st2) = map fst ?groups"
    using arg_cong[OF r2, of "map fst"] by (simp add: case_prod_unfold comp_def)
  have p0: "list_all (\<lambda>(k, v). pending (map fst ?groups) ?C {} k v) (snd ([], nodes))"
    using u by (auto simp: list_all_iff pending_def unassigned_def ringKnown_def)
  have p1: "list_all (\<lambda>(k, v). pending (map fst ?groups) ?C ({} \<union> \<Union> (set ` snd ` set ?groups)) k v)
              (snd ?st2)"
    using d by (intro fold_cycleRing_pending[OF _ p0]) simp_all
  have k0: "ringKnown (map fst ?groups) (ringId v)"
    if "pending (map fst ?groups) ?C ({} \<union> \<Union> (set ` snd ` set ?groups)) k v" for k v
    using that merged_groups_cover[of k cycles] by (auto simp: pending_def)
  have "list_all (\<lambda>(k, v). ringKnown (map ring_id (fst (snd ?s0))) (ringId v)) (snd (snd ?s0))"
    using p1 k0 unfolding ids2 fst_conv snd_conv by (auto simp: list_all_iff)
  then have "list_all (\<lambda>(k, v). ringKnown (map ring_id (fst (snd ?s3))) (ringId v)) (snd (snd ?s3))"
    by (intro candidateRing_known)
  then show ?thesis by (simp add: res)
qed

lemma suspiciousAccountsOf_known:
  assumes "list_all (\<lambda>(k, v). ringKnown ids (ringId v)) nodes"
  shows "list_all (\<lambda>a. ringKnown ids (account_ring_id a)) (suspiciousAccountsOf nodes)"
  using assms by (auto simp: suspiciousAccountsOf_def list_all_iff)

lemma ringKnown_formatted:
  "list_all ringIdFormat ids \<Longrightarrow> ringKnown ids r \<Longrightarrow> ringFormatted r"
  by (auto simp: ringKnown_def ringFormatted_def list_all_iff split: option.splits)

lemma analyze_nodes_known:
  "list_all (\<lambda>(k, v). ringKnown
       (map ring_id (fraud_rings (fst (analyzeTransactions cvBelow ringCounter startTime endTime transactions))))
       (ringId v))
     (result_nodes (fst (analyzeTransactions cvBelow ringCounter startTime endTime transactions)))"
proof -
  let ?res = "assembleFraudRings ringCounter (det_cycles (detect transactions))
          (det_fanIn (detect transactions)) (det_fanOut (detect transactions))
          (det_shell (detect transactions)) (det_filtered cvBelow transactions)"
  have "list_all (\<lambda>(k, v). ringKnown (map ring_id (fst ?res)) (ringId v)) (fst (snd ?res))"
    by (rule assemble_nodes_known)
       (rule det_filtered_unassigned[THEN conjunct1], rule det_filtered_unassigned[THEN conjunct2])
  then show ?thesis
    by (cases ?res) (simp add: analyzeTransactions_def Let_def)
qed

lemma analyze_accounts:
  "suspicious_accounts (fst (analyzeTransactions cvBelow ringCounter startTime endTime transactions))
     = suspiciousAccountsOf (result_nodes (fst (analyzeTransactions cvBelow ringCounter startTime endTime transactions)))"
  by (simp add: analyzeTransactions_def Let_def split: prod.split)

text \<open>
  C6, as the code has it. The ring ids of the report are the identifiers of 1, 2, ...,
  in list order, whatever value the module's counter had before the call; the cycle rings
  come first, then at most one fan-in ring, one fan-out ring and one shell ring. Every
  \<open>ring_id\<close> that a \<open>suspicious_accounts\<close> entry or a node of the result carries is
  the id of a ring of \<open>fraud_rings\<close>. An identifier is \<open>RING_\<close> and the counter in
  decimal, padded with zeros to at least three digits: every id of the report, in
  \<open>fraud_rings\<close>, in \<open>suspicious_accounts\<close> and in the node table, has the format
  \<open>RING_ddd\<close> as long as the report has at most 999 rings.
\<close>

theorem ring_ids_contiguous:
  "map ring_id (fraud_rings (fst (analyzeTransactions cvBelow ringCounter startTime endTime transactions)))
     = map mkRingId [1..<Suc (length (fraud_rings (fst (analyzeTransactions cvBelow ringCounter startTime endTime transactions))))]
   \<and> (\<exists>n fi fo sh.
         map pattern_type (fraud_rings (fst (analyzeTransactions cvBelow ringCounter startTime endTime transactions)))
           = replicate n ring_cycle @ fi @ fo @ sh
         \<and> fi \<in> {[], [ring_fan_in]} \<and> fo \<in> {[], [ring_fan_out]} \<and> sh \<in> {[], [ring_shell_chain]})
   \<and> list_all (\<lambda>a. ringKnown
                     (map ring_id (fraud_rings (fst (analyzeTransactions cvBelow ringCounter startTime endTime transactions))))
                     (account_ring_id a))
        (suspicious_accounts (fst (analyzeTransactions cvBelow ringCounter startTime endTime transactions)))
   \<and> list_all (\<lambda>(k, n). ringKnown
                     (map ring_id (fraud_rings (fst (analyzeTransactions cvBelow ringCounter startTime endTime transactions))))
                     (ringId n))
        (result_nodes (fst (analyzeTransactions cvBelow ringCounter startTime endTime transactions)))
   \<and> (length (fraud_rings (fst (analyzeTransactions cvBelow ringCounter startTime endTime transactions))) \<le> 999
        \<longrightarrow> list_all ringIdFormat
              (map ring_id (fraud_rings (fst (analyzeTransactions cvBelow ringCounter startTime endTime transactions))))
          \<and> list_all (\<lambda>a. ringFormatted (account_ring_id a))
              (suspicious_accounts (fst (analyzeTransactions cvBelow ringCounter startTime endTime transactions)))
          \<and> list_all (\<lambda>(k, n). ringFormatted (ringId n))
              (result_nodes (fst (analyzeTransactions cvBelow ringCounter startTime endTime transactions))))"
proof -
  let ?result = "fst (analyzeTransactions cvBelow ringCounter startTime endTime transactions)"
  let ?rings = "fraud_rings ?result"
  have ids: "map ring_id ?rings = map mkRingId [1..<Suc (length ?rings)]"
    unfolding analyze_fraud_rings by (rule assemble_ring_ids(1))
  have pats: "\<exists>n fi fo sh. map pattern_type ?rings = replicate n ring_cycle @ fi @ fo @ sh
         \<and> fi \<in> {[], [ring_fan_in]} \<and> fo \<in> {[], [ring_fan_out]} \<and> sh \<in> {[], [ring_shell_chain]}"
    unfolding analyze_fraud_rings by (rule assemble_ring_ids(3))
  have nodes: "list_all (\<lambda>(k, n). ringKnown (map ring_id ?rings) (ringId n)) (result_nodes ?result)"
    by (rule analyze_nodes_known)
  have accounts: "list_all (\<lambda>a. ringKnown (map ring_id ?rings) (account_ring_id a)) (suspicious_accounts ?result)"
    unfolding analyze_accounts[of cvBelow ringCounter startTime endTime transactions]
    using nodes by (rule suspiciousAccountsOf_known)
  have fmt: "list_all ringIdFormat (map ring_id ?rings)
          \<and> list_all (\<lambda>a. ringFormatted (account_ring_id a)) (suspicious_accounts ?result)
          \<and> list_all (\<lambda>(k, n). ringFormatted (ringId n)) (result_nodes ?result)"
    if "length ?rings \<le> 999"
  proof -
    have "list_all ringIdFormat (map mkRingId [1..<Suc (length ?rings)])"
      using that by (auto simp: list_all_iff intro!: mkRingId_format)
    with ids have f: "list_all ringIdFormat (map ring_id ?rings)" by simp
    have "list_all (\<lambda>a. ringFormatted (account_ring_id a)) (suspicious_accounts ?result)"
      using accounts ringKnown_formatted[OF f] by (auto simp: list_all_iff)
    moreover have "list_all (\<lambda>(k, n). ringFormatted (ringId n)) (result_nodes ?result)"
      using nodes ringKnown_formatted[OF f] by (auto simp: list_all_iff)
    ultimately show ?thesis using f by blast
  qed
  from ids pats accounts nodes fmt show ?thesis by blast
qed


theorem ring_ids_contiguous_witness:
  "length (fraud_rings (fst (analyzeTransactions amountsAll1000 5 0 0 overlapping_cycles_batch))) \<le> 999
   \<and> map ring_id (fraud_rings (fst (analyzeTransactions amountsAll1000 5 0 0 overlapping_cycles_batch)))
       = [''RING_001'', ''RING_002'']
   \<and> map (\<lambda>a. (account_id a, account_ring_id a))
         (suspicious_accounts (fst (analyzeTransactions amountsAll1000 5 0 0 overlapping_cycles_batch)))
       = [(''A'', Some ''RING_001''), (''B'', Some ''RING_001''), (''D'', Some ''RING_002''),
          (''E'', Some ''RING_002''), (''F'', Some ''RING_002''), (''C'', Some ''RING_002''),
          (''W'', Some ''RING_002'')]
   \<and> list_all ringIdFormat
        (map ring_id (fraud_rings (fst (analyzeTransactions amountsAll1000 5 0 0 overlapping_cycles_batch))))
   \<and> list_all (\<lambda>a. ringFormatted (account_ring_id a))
        (suspicious_accounts (fst (analyzeTransactions amountsAll1000 5 0 0 overlapping_cycles_batch)))"
proof -
  have ids: "map ring_id (fraud_rings (fst (analyzeTransactions amountsAll1000 5 0 0 overlapping_cycles_batch)))
       = [''RING_001'', ''RING_002'']"
    unfolding overlapping_cycles_batch_def transfer_def by code_simp
  have accounts: "map (\<lambda>a. (account_id a, account_ring_id a))
         (suspicious_accounts (fst (analyzeTransactions amountsAll1000 5 0 0 overlapping_cycles_batch)))
       = [(''A'', Some ''RING_001''), (''B'', Some ''RING_001''), (''D'', Some ''RING_002''),
          (''E'', Some ''RING_002''), (''F'', Some ''RING_002''), (''C'', Some ''RING_002''),
          (''W'', Some ''RING_002'')]"
    unfolding overlapping_cycles_batch_def transfer_def by code_simp
  from arg_cong[OF ids, of length]
  have len: "length (fraud_rings (fst (analyzeTransactions amountsAll1000 5 0 0 overlapping_cycles_batch))) \<le> 999"
    by simp
  with ring_ids_contiguous[of amountsAll1000 5 0 0 overlapping_cycles_batch]
  have "list_all ringIdFormat
        (map ring_id (fraud_rings (fst (analyzeTransactions amountsAll1000 5 0 0 overlapping_cycles_batch))))
     \<and> list_all (\<lambda>a. ringFormatted (account_ring_id a))
        (suspicious_accounts (fst (analyzeTransactions amountsAll1000 5 0 0 overlapping_cycles_batch)))"
    by blast
  with ids accounts len show ?thesis by blast
qed

subsection \<open>A report of a thousand rings\<close>

text \<open>
  The graph and the cycles of \<open>triangles_batch n\<close>: the accounts appear in the order
  of their numbers, every account has the next account of its triangle as its only
  neighbour, and the detector reports the triangles one by one.
\<close>

lemma triangle_acct: "triangle i = [acct (3 * i + 1), acct (3 * i + 2), acct (3 * i + 3)]"
  by (simp add: triangle_def)

lemma acct_inj: "acct a = acct b \<longleftrightarrow> a = b"
proof
  assume "acct a = acct b"
  then have "length (acct a) = length (acct b)" by simp
  then show "a = b" by (simp add: acct_def)
qed simp

lemma addTransaction_adjacency:
  "map_of (graph_adjacency (addTransaction tx g))
     = (map_of (graph_adjacency g))
         (sender_id tx \<mapsto> set_add (case map_of (graph_adjacency g) (sender_id tx) of
                                        None \<Rightarrow> [] | Some l \<Rightarrow> l) (receiver_id tx))"
  by (auto simp: addTransaction_def Let_def map_mutate_def map_set_def map_has_def
        map_of_map_entry update_conv' split: option.splits)


lemma buildGraph_snoc:
  "buildGraph (triangles_batch (Suc n)) = fold addTransaction (triangle_transfers n) (buildGraph (triangles_batch n))"
  by (simp add: buildGraph_def triangles_batch_def)

lemma triangles_flat_length: "k \<in> set (concat (map triangle [0..<n])) \<Longrightarrow> length k \<le> 3 * n"
  by (auto simp: triangle_acct acct_def)

lemma acct_fresh: "3 * n < k \<Longrightarrow> acct k \<notin> set (concat (map triangle [0..<n]))"
  using triangles_flat_length[of "acct k" n] by (auto simp: acct_def)

lemma triangles_batch_graph:
  "map fst (graph_nodes (buildGraph (triangles_batch n))) = concat (map triangle [0..<n])
   \<and> (\<forall>k. 3 * n < length k \<longrightarrow> map_of (graph_adjacency (buildGraph (triangles_batch n))) k = None)
   \<and> (\<forall>i<n. map_of (graph_adjacency (buildGraph (triangles_batch n))) (acct (3 * i + 1)) = Some [acct (3 * i + 2)]
            \<and> map_of (graph_adjacency (buildGraph (triangles_batch n))) (acct (3 * i + 2)) = Some [acct (3 * i + 3)]
            \<and> map_of (graph_adjacency (buildGraph (triangles_batch n))) (acct (3 * i + 3)) = Some [acct (3 * i + 1)])"
proof (induction n)
  case 0
  show ?case by (simp add: buildGraph_def triangles_batch_def)
next
  case (Suc n)
  let ?g = "buildGraph (triangles_batch n)"
  let ?x = "acct (3 * n + 1)" and ?y = "acct (3 * n + 2)" and ?z = "acct (3 * n + 3)"
  from Suc have keys: "map fst (graph_nodes ?g) = concat (map triangle [0..<n])"
    and fresh: "\<And>k. 3 * n < length k \<Longrightarrow> map_of (graph_adjacency ?g) k = None"
    and old: "\<And>i. i < n \<Longrightarrow>
              map_of (graph_adjacency ?g) (acct (3 * i + 1)) = Some [acct (3 * i + 2)]
            \<and> map_of (graph_adjacency ?g) (acct (3 * i + 2)) = Some [acct (3 * i + 3)]
            \<and> map_of (graph_adjacency ?g) (acct (3 * i + 3)) = Some [acct (3 * i + 1)]"
    by auto
  have fx: "?x \<notin> set (concat (map triangle [0..<n]))"
    and fy: "?y \<notin> set (concat (map triangle [0..<n]))"
    and fz: "?z \<notin> set (concat (map triangle [0..<n]))"
    by (rule acct_fresh; simp)+
  have nx: "map_of (graph_adjacency ?g) ?x = None"
    and ny: "map_of (graph_adjacency ?g) ?y = None"
    and nz: "map_of (graph_adjacency ?g) ?z = None"
    by (rule fresh; simp add: acct_def)+
  have keys': "map fst (graph_nodes (buildGraph (triangles_batch (Suc n))))
      = concat (map triangle [0..<n]) @ [?x, ?y, ?z]"
    using fx fy fz
    by (simp add: buildGraph_snoc triangle_transfers_def transfer_def addTransaction_keys keys
          set_add_def acct_inj)
  have adj': "map_of (graph_adjacency (buildGraph (triangles_batch (Suc n))))
      = (map_of (graph_adjacency ?g))(?x \<mapsto> [?y], ?y \<mapsto> [?z], ?z \<mapsto> [?x])"
    using nx ny nz
    by (simp add: buildGraph_snoc triangle_transfers_def transfer_def addTransaction_adjacency
          set_add_def acct_inj)
  have k1: "map fst (graph_nodes (buildGraph (triangles_batch (Suc n)))) = concat (map triangle [0..<Suc n])"
    using keys' by (simp add: triangle_acct)
  have k2: "map_of (graph_adjacency (buildGraph (triangles_batch (Suc n)))) k = None"
    if "3 * Suc n < length k" for k
  proof -
    from that have "k \<noteq> ?x" "k \<noteq> ?y" "k \<noteq> ?z" by (auto simp: acct_def)
    moreover from that have "map_of (graph_adjacency ?g) k = None" by (intro fresh) simp
    ultimately show ?thesis by (simp add: adj')
  qed
  have k3: "map_of (graph_adjacency (buildGraph (triangles_batch (Suc n)))) (acct (3 * i + 1)) = Some [acct (3 * i + 2)]
            \<and> map_of (graph_adjacency (buildGraph (triangles_batch (Suc n)))) (acct (3 * i + 2)) = Some [acct (3 * i + 3)]
            \<and> map_of (graph_adjacency (buildGraph (triangles_batch (Suc n)))) (acct (3 * i + 3)) = Some [acct (3 * i + 1)]"
    if "i < Suc n" for i
  proof (cases "i = n")
    case True
    then show ?thesis by (simp add: adj' acct_inj)
  next
    case False
    with that have "i < n" by simp
    from old[OF this] \<open>i < n\<close> show ?thesis by (simp add: adj' acct_inj)
  qed
  from k1 k2 k3 show ?case by blast
qed


lemma dfs_triangle:
  assumes "a \<noteq> b" "b \<noteq> c" "a \<noteq> c"
    and "neighborsOf adjacency a = [b]" "neighborsOf adjacency b = [c]" "neighborsOf adjacency c = [a]"
  shows "dfs adjacency a a 1 [a] [a] st = recordCycle [a, b, c] st"
  using assms by (simp add: dfs.simps)

lemma sum_list_map_insort:
  fixes f :: "'a::linorder \<Rightarrow> nat"
  shows "sum_list (map f (insort x xs)) = f x + sum_list (map f xs)"
  by (induction xs) auto

lemma sum_list_map_sort:
  fixes f :: "'a::linorder \<Rightarrow> nat"
  shows "sum_list (map f (sort xs)) = sum_list (map f xs)"
  by (induction xs) (auto simp: sum_list_map_insort)

lemma length_join:
  "length (join sep xs) = sum_list (map length xs) + length sep * (length xs - 1)"
  by (induction sep xs rule: join.induct) auto

lemma length_cycleKey_triangle: "length (cycleKey (triangle i)) = 9 * i + 8"
  unfolding cycleKey_def length_join sum_list_map_sort
  by (simp add: triangle_acct acct_def)

lemma cycleKey_triangle_fresh: "cycleKey (triangle m) \<notin> set (map cycleKey (triangles m))"
proof
  assume "cycleKey (triangle m) \<in> set (map cycleKey (triangles m))"
  then obtain i where i: "i < m" "cycleKey (triangle m) = cycleKey (triangle i)"
    by (auto simp: triangles_def)
  from arg_cong[OF i(2), of length] i(1) show False
    by (simp add: length_cycleKey_triangle)
qed

lemma cycleKey_rotations:
  assumes "distinct [a, b, c]"
  shows "cycleKey [b, c, a] = cycleKey [a, b, c]" and "cycleKey [c, a, b] = cycleKey [a, b, c]"
  unfolding cycleKey_def using assms by (auto intro!: arg_cong[of _ _ "join ''|''"] sort_eq_of_set_eq)

lemma triangles_batch_cycles:
  assumes "m \<le> n"
  shows "fold (\<lambda>start st. dfs (graph_adjacency (buildGraph (triangles_batch n))) start start 1 [start] [start] st)
           (concat (map triangle [0..<m])) ([], [])
         = (map cycleKey (triangles m), triangles m)"
  using assms
proof (induction m)
  case 0
  show ?case by (simp add: triangles_def)
next
  case (Suc m)
  let ?adj = "graph_adjacency (buildGraph (triangles_batch n))"
  define x where "x = acct (3 * m + 1)"
  define y where "y = acct (3 * m + 2)"
  define z where "z = acct (3 * m + 3)"
  from Suc.prems have m: "m < n" by simp
  with triangles_batch_graph[of n]
  have nb: "neighborsOf ?adj x = [y]" "neighborsOf ?adj y = [z]" "neighborsOf ?adj z = [x]"
    by (simp_all add: neighborsOf_def x_def y_def z_def)
  have ne: "x \<noteq> y" "y \<noteq> z" "x \<noteq> z" "y \<noteq> x" "z \<noteq> y" "z \<noteq> x"
    by (simp_all add: acct_inj x_def y_def z_def)
  have t: "triangle m = [x, y, z]" by (simp add: triangle_acct x_def y_def z_def)
  have dx: "dfs ?adj x x 1 [x] [x] st = recordCycle (triangle m) st" for st
    unfolding t using ne nb by (intro dfs_triangle) auto
  have dy: "dfs ?adj y y 1 [y] [y] st = recordCycle [y, z, x] st" for st
    using ne nb by (intro dfs_triangle) auto
  have dz: "dfs ?adj z z 1 [z] [z] st = recordCycle [z, x, y] st" for st
    using ne nb by (intro dfs_triangle) auto
  have rot: "cycleKey [y, z, x] = cycleKey (triangle m)" "cycleKey [z, x, y] = cycleKey (triangle m)"
    unfolding t using ne by (auto intro!: cycleKey_rotations)
  let ?st = "(map cycleKey (triangles m), triangles m)"
  have r1: "recordCycle (triangle m) ?st = (map cycleKey (triangles (Suc m)), triangles (Suc m))"
    using cycleKey_triangle_fresh[of m]
    by (simp add: recordCycle_def Let_def triangles_def)
  have r2: "recordCycle [y, z, x] (map cycleKey (triangles (Suc m)), triangles (Suc m))
        = (map cycleKey (triangles (Suc m)), triangles (Suc m))"
    by (simp add: recordCycle_def Let_def rot triangles_def)
  have r3: "recordCycle [z, x, y] (map cycleKey (triangles (Suc m)), triangles (Suc m))
        = (map cycleKey (triangles (Suc m)), triangles (Suc m))"
    by (simp add: recordCycle_def Let_def rot triangles_def)
  have "fold (\<lambda>start st. dfs ?adj start start 1 [start] [start] st) (concat (map triangle [0..<Suc m])) ([], [])
      = fold (\<lambda>start st. dfs ?adj start start 1 [start] [start] st) [x, y, z] ?st"
    using Suc.IH m by (simp add: t)
  also have "\<dots> = (map cycleKey (triangles (Suc m)), triangles (Suc m))"
    by (simp only: fold_simps id_apply comp_apply dx dy dz r1 r2 r3)
  finally show ?case .
qed

lemma triangles_batch_det_cycles: "det_cycles (detect (triangles_batch n)) = triangles n"
  using triangles_batch_cycles[of n n] triangles_batch_graph[of n]
  by (simp add: detect_def Let_def detectCycles_def split: prod.split)

text \<open>
  The thousandth ring of the batch of a thousand disjoint triangles, whatever the payroll
  test answers (every account of the batch sends once, so that the test is never run).
\<close>

lemma triangles_thousandth_ring:
  "ring_id (fraud_rings (fst (analyzeTransactions cvBelow 0 0 0 (triangles_batch 1000))) ! 999) = ''RING_1000''
   \<and> 999 < length (fraud_rings (fst (analyzeTransactions cvBelow 0 0 0 (triangles_batch 1000))))"
proof -
  let ?rings = "fraud_rings (fst (analyzeTransactions cvBelow 0 0 0 (triangles_batch 1000)))"
  have "fst (fold mergeCycle (triangles 1000) (0, [], [])) \<le> length ?rings"
    unfolding analyze_fraud_rings triangles_batch_det_cycles by (rule assemble_ring_ids(4))
  with triangles_counter[of 1000] have len: "999 < length ?rings" by simp
  have ids: "map ring_id ?rings = map mkRingId [1..<Suc (length ?rings)]"
    unfolding analyze_fraud_rings by (rule assemble_ring_ids(1))
  have "ring_id (?rings ! 999) = map ring_id ?rings ! 999"
    using len by simp
  also have "\<dots> = mkRingId (Suc 999)"
    unfolding ids using len by (simp del: upt_Suc add: nth_map)
  also have "\<dots> = ''RING_1000''"
    by (simp add: mkRingId_def padStart_def decimal.simps digitChar_def)
  finally have id: "ring_id (?rings ! 999) = ''RING_1000''" .
  with len show ?thesis by blast
qed

text \<open>
  \<open>padStart\<close> pads and never truncates: on the batch of a thousand disjoint triangles
  (3000 transactions) the thousandth ring of the report is \<open>RING_1000\<close>, which is not of
  the format \<open>RING_ddd\<close>.
\<close>

theorem thousandth_ring_of_the_engine:
  "ring_id (fraud_rings (fst (analyzeTransactions amountsAll1000 0 0 0 (triangles_batch 1000))) ! 999) = ''RING_1000''
   \<and> 999 < length (fraud_rings (fst (analyzeTransactions amountsAll1000 0 0 0 (triangles_batch 1000))))
   \<and> \<not> ringIdFormat ''RING_1000''"
proof -
  have "\<not> ringIdFormat ''RING_1000''"
    by (simp add: ringIdFormat_def)
  with triangles_thousandth_ring[of amountsAll1000] show ?thesis by blast
qed


section \<open>Determinism\<close>

lemma assemble_counter_reset:
  "assembleFraudRings ringCounter cycles fanInAccounts fanOutAccounts shellAccounts nodes
     = assembleFraudRings 0 cycles fanInAccounts fanOutAccounts shellAccounts nodes"
  by (simp add: assembleFraudRings_def)

text \<open>
  C8. The report depends on the transactions alone: runs that differ in the counter the
  module holds and in the clock yield the same \<open>suspicious_accounts\<close>, the same
  \<open>fraud_rings\<close> and the same summary up to \<open>processing_time_seconds\<close>; and a second
  run, started from the counter the first run leaves behind, repeats it.
\<close>

theorem analysis_deterministic:
  "suspicious_accounts (fst (analyzeTransactions cvBelow ringCounter1 start1 end1 transactions))
     = suspicious_accounts (fst (analyzeTransactions cvBelow ringCounter2 start2 end2 transactions))
   \<and> fraud_rings (fst (analyzeTransactions cvBelow ringCounter1 start1 end1 transactions))
     = fraud_rings (fst (analyzeTransactions cvBelow ringCounter2 start2 end2 transactions))
   \<and> (summary (fst (analyzeTransactions cvBelow ringCounter1 start1 end1 transactions)))
        \<lparr>processing_time_seconds := 0\<rparr>
     = (summary (fst (analyzeTransactions cvBelow ringCounter2 start2 end2 transactions)))
        \<lparr>processing_time_seconds := 0\<rparr>
   \<and> analyzeTransactions cvBelow (snd (analyzeTransactions cvBelow ringCounter1 start1 end1 transactions))
        start1 end1 transactions
     = analyzeTransactions cvBelow ringCounter1 start1 end1 transactions"
  unfolding analyzeTransactions_def Let_def
  by (subst (1 2 3 4 5 6 7 8 9) assemble_counter_reset) (simp split: prod.split)


theorem analysis_deterministic_witness:
  "fraud_rings (fst (analyzeTransactions amountsAll1000 0 0 5 payroll_batch))
     = fraud_rings (fst (analyzeTransactions amountsAll1000 1 100 250 payroll_batch))
   \<and> snd (analyzeTransactions amountsAll1000 0 0 5 payroll_batch) = 1"
proof -
  have "snd (analyzeTransactions amountsAll1000 0 0 5 payroll_batch) = 1"
    unfolding payroll_batch_def transfer_def by code_simp
  with analysis_deterministic[of amountsAll1000 0 0 5 payroll_batch 1 100 250] show ?thesis by blast
qed

section \<open>The sliding window of the smurfing detector\<close>

lemma advanceLeft_guard:
  fixes timestamps :: "int list"
  shows "left \<le> right \<Longrightarrow> 0 \<le> width
   \<Longrightarrow> (left < right \<and> timestamps ! right - timestamps ! left > width)
       = (timestamps ! right - timestamps ! left > width)"
  by (cases "left = right") auto

lemma advanceLeft_props:
  fixes ts :: "int list"
  assumes "left \<le> right" "0 \<le> width"
  shows "left \<le> advanceLeft width ts right left \<and> advanceLeft width ts right left \<le> right
     \<and> ts ! right - ts ! (advanceLeft width ts right left) \<le> width
     \<and> (\<forall>i. left \<le> i \<and> i < advanceLeft width ts right left \<longrightarrow> ts ! right - ts ! i > width)"
  using assms
proof (induction width ts right left rule: advanceLeft.induct)
  case (1 width ts right left)
  show ?case
  proof (cases "left < right \<and> ts ! right - ts ! left > width")
    case True
    then have eq: "advanceLeft width ts right left = advanceLeft width ts right (left + 1)"
      by (subst advanceLeft.simps) simp
    from True "1.prems" have ih: "left + 1 \<le> advanceLeft width ts right (left + 1)
       \<and> advanceLeft width ts right (left + 1) \<le> right
       \<and> ts ! right - ts ! (advanceLeft width ts right (left + 1)) \<le> width
       \<and> (\<forall>i. left + 1 \<le> i \<and> i < advanceLeft width ts right (left + 1) \<longrightarrow> ts ! right - ts ! i > width)"
      by (intro "1.IH") auto
    have "ts ! right - ts ! i > width" if "left \<le> i" "i < advanceLeft width ts right (left + 1)" for i
    proof (cases "i = left")
      case True
      with \<open>left < right \<and> ts ! right - ts ! left > width\<close> show ?thesis by simp
    next
      case False
      with that ih show ?thesis by auto
    qed
    with ih show ?thesis unfolding eq by auto
  next
    case False
    then have eq: "advanceLeft width ts right left = left"
      by (subst advanceLeft.simps) auto
    have "ts ! right - ts ! left \<le> width"
    proof (cases "left < right")
      case True
      with False show ?thesis by simp
    next
      case nlt: False
      with "1.prems" have "left = right" by simp
      with "1.prems" show ?thesis by simp
    qed
    with "1.prems" show ?thesis unfolding eq by simp
  qed
qed

lemma set_of_array_acc:
  "distinct acc \<Longrightarrow> distinct (fold (\<lambda>x s. set_add s x) xs acc)
     \<and> set (fold (\<lambda>x s. set_add s x) xs acc) = set acc \<union> set xs"
  by (induction xs arbitrary: acc) (auto simp: set_add_def)

lemma length_set_of_array: "length (set_of_array xs) = card (set xs)"
proof -
  have d: "distinct (set_of_array xs)" and s: "set (set_of_array xs) = set xs"
    using set_of_array_acc[of "[]" xs] by (simp_all add: set_of_array_def)
  from distinct_card[OF d] s show ?thesis by simp
qed

lemma in_slice_iff:
  "x \<in> set (take n (drop i s)) \<longleftrightarrow> (\<exists>k. i \<le> k \<and> k < i + n \<and> k < length s \<and> x = s ! k)"
proof
  assume "x \<in> set (take n (drop i s))"
  then obtain m where m: "m < length (take n (drop i s))" "x = take n (drop i s) ! m"
    by (auto simp: in_set_conv_nth)
  then have "i \<le> i + m \<and> i + m < i + n \<and> i + m < length s \<and> x = s ! (i + m)"
    by auto
  then show "\<exists>k. i \<le> k \<and> k < i + n \<and> k < length s \<and> x = s ! k" by blast
next
  assume "\<exists>k. i \<le> k \<and> k < i + n \<and> k < length s \<and> x = s ! k"
  then obtain k where k: "i \<le> k" "k < i + n" "k < length s" "x = s ! k" by blast
  then have "k - i < length (take n (drop i s))" "take n (drop i s) ! (k - i) = x"
    by auto
  then show "x \<in> set (take n (drop i s))"
    by (metis nth_mem)
qed

lemma slice_mono:
  assumes "l \<le> i"
  shows "set (take (j + 1 - i) (drop i s)) \<subseteq> set (take (j + 1 - l) (drop l s))"
proof
  fix x assume "x \<in> set (take (j + 1 - i) (drop i s))"
  then obtain k where k: "i \<le> k" "k < i + (j + 1 - i)" "k < length s" "x = s ! k"
    unfolding in_slice_iff by blast
  with assms have "l \<le> k \<and> k < l + (j + 1 - l) \<and> k < length s \<and> x = s ! k"
    by linarith
  then show "x \<in> set (take (j + 1 - l) (drop l s))"
    unfolding in_slice_iff by blast
qed

lemma smurfWindow_iff:
  assumes "sorted (map timestamp s)" "left \<le> right"
    and "\<forall>i<left. \<forall>j. right \<le> j \<and> j < length s \<longrightarrow> timestamp (s ! j) - timestamp (s ! i) > SMURF_WINDOW_MS"
  shows "smurfWindow cp s left right \<longleftrightarrow> (\<exists>i j. right \<le> j \<and> windowHit cp s i j)"
  using assms
proof (induction cp s left right rule: smurfWindow.induct)
  case (1 cp s left right)
  show ?case
  proof (cases "right < length s")
    case False
    then show ?thesis
      by (subst smurfWindow.simps) (auto simp: windowHit_def)
  next
    case True
    let ?ts = "map timestamp s"
    let ?l = "advanceLeft SMURF_WINDOW_MS ?ts right left"
    let ?window = "take (right + 1 - ?l) (drop ?l s)"
    have w0: "0 \<le> SMURF_WINDOW_MS" by (simp add: SMURF_WINDOW_MS_def)
    from advanceLeft_props[OF "1.prems"(2) w0, of ?ts]
    have l1: "left \<le> ?l" and l2: "?l \<le> right"
      and l3: "?ts ! right - ?ts ! ?l \<le> SMURF_WINDOW_MS"
      and l4: "\<forall>i. left \<le> i \<and> i < ?l \<longrightarrow> ?ts ! right - ?ts ! i > SMURF_WINDOW_MS"
      by auto
    have old: "timestamp (s ! right) - timestamp (s ! i) > SMURF_WINDOW_MS" if "i < ?l" for i
    proof (cases "i < left")
      case True
      with "1.prems"(3) \<open>right < length s\<close> show ?thesis by auto
    next
      case False
      with that l4 l2 \<open>right < length s\<close> show ?thesis by auto
    qed
    show ?thesis
    proof (cases "length (set_of_array (map cp ?window)) \<ge> SMURF_THRESHOLD")
      case hit: True
      then have "smurfWindow cp s left right"
        using True by (subst smurfWindow.simps) (simp add: Let_def)
      moreover have "windowHit cp s ?l right"
        using hit True l2 l3 by (simp add: windowHit_def length_set_of_array)
      ultimately show ?thesis by blast
    next
      case miss: False
      then have step: "smurfWindow cp s left right = smurfWindow cp s ?l (right + 1)"
        using True by (subst smurfWindow.simps) (simp add: Let_def)
      have inv': "\<forall>i<?l. \<forall>j. right + 1 \<le> j \<and> j < length s
                 \<longrightarrow> timestamp (s ! j) - timestamp (s ! i) > SMURF_WINDOW_MS"
      proof (intro allI impI)
        fix i j assume i: "i < ?l" and j: "right + 1 \<le> j \<and> j < length s"
        have "?ts ! right \<le> ?ts ! j"
          using "1.prems"(1) j by (intro sorted_nth_mono) auto
        then have "timestamp (s ! right) \<le> timestamp (s ! j)"
          using j True by simp
        with old[OF i] show "timestamp (s ! j) - timestamp (s ! i) > SMURF_WINDOW_MS" by simp
      qed
      have ih: "smurfWindow cp s ?l (right + 1) \<longleftrightarrow> (\<exists>i j. right + 1 \<le> j \<and> windowHit cp s i j)"
        using True miss "1.prems"(1) l2 inv'
        by (intro "1.IH"[OF True refl refl refl]) auto
      have nohit: "\<not> windowHit cp s i right" for i
      proof
        assume h: "windowHit cp s i right"
        then have "\<not> i < ?l" using old[of i] by (auto simp: windowHit_def)
        then have "?l \<le> i" by simp
        then have "cp ` set (take (right + 1 - i) (drop i s)) \<subseteq> cp ` set ?window"
          by (intro image_mono slice_mono)
        then have "card (cp ` set (take (right + 1 - i) (drop i s))) \<le> card (cp ` set ?window)"
          by (intro card_mono) auto
        with h miss show False
          by (simp add: windowHit_def length_set_of_array)
      qed
      have "(\<exists>i j. right \<le> j \<and> windowHit cp s i j) \<longleftrightarrow> (\<exists>i j. right + 1 \<le> j \<and> windowHit cp s i j)"
      proof
        assume "\<exists>i j. right \<le> j \<and> windowHit cp s i j"
        then obtain i j where ij: "right \<le> j" "windowHit cp s i j" by blast
        with nohit[of i] have "j \<noteq> right" by auto
        with ij show "\<exists>i j. right + 1 \<le> j \<and> windowHit cp s i j" by (intro exI[of _ i] exI[of _ j]) auto
      next
        assume "\<exists>i j. right + 1 \<le> j \<and> windowHit cp s i j"
        then obtain i j where "right + 1 \<le> j" "windowHit cp s i j" by blast
        then have "right \<le> j \<and> windowHit cp s i j" by simp
        then show "\<exists>i j. right \<le> j \<and> windowHit cp s i j" by blast
      qed
      with step ih show ?thesis by simp
    qed
  qed
qed

lemma smurfWindow_from_start:
  "smurfWindow cp (sort_key timestamp es) 0 0 \<longleftrightarrow> (\<exists>i j. windowHit cp (sort_key timestamp es) i j)"
  using smurfWindow_iff[of "sort_key timestamp es" 0 0 cp] by simp


lemma fold_pair_split:
  "fold (\<lambda>x (a, b). (f x a, g x b)) xs (a0, b0) = (fold f xs a0, fold g xs b0)"
  by (induction xs arbitrary: a0 b0) auto

lemma groupEdges_split:
  "groupEdges edges =
     (fold (\<lambda>edge m. push_to m (target edge) edge) edges [],
      fold (\<lambda>edge m. push_to m (source edge) edge) edges [])"
  unfolding groupEdges_def by (rule fold_pair_split)

lemma fold_flag_set:
  "set (fold (\<lambda>(k, v) found. if P v then set_add found k else found) m acc)
     = set acc \<union> {k. \<exists>v. (k, v) \<in> set m \<and> P v}"
  by (induction m arbitrary: acc) (auto simp: set_add_def split: if_splits)

lemma smurfWindow_empty: "\<not> smurfWindow cp [] left right"
  by (subst smurfWindow.simps) simp

lemma flagged_iff:
  fixes kf :: "GraphEdge \<Rightarrow> account_id"
  shows "r \<in> set (fold (\<lambda>(k, es) found. if smurfWindow cp (sort_key timestamp es) 0 0
                                          then set_add found k else found)
                   (fold (\<lambda>edge m. push_to m (kf edge) edge) edges []) [])
     \<longleftrightarrow> smurfWindow cp (sort_key timestamp (filter (\<lambda>e. kf e = r) edges)) 0 0"
proof -
  let ?G = "fold (\<lambda>edge m. push_to m (kf edge) edge) edges []"
  have d: "distinct (map fst ?G)" by (rule group_fold(1))
  have m: "map_of ?G r = (if r \<in> kf ` set edges then Some (filter (\<lambda>e. kf e = r) edges) else None)"
    using group_fold(2)[of kf "\<lambda>e. e" edges r] by simp
  have "r \<in> set (fold (\<lambda>(k, es) found. if smurfWindow cp (sort_key timestamp es) 0 0
                                          then set_add found k else found) ?G [])
      \<longleftrightarrow> (\<exists>es. (r, es) \<in> set ?G \<and> smurfWindow cp (sort_key timestamp es) 0 0)"
    by (simp add: fold_flag_set[of "\<lambda>es. smurfWindow cp (sort_key timestamp es) 0 0"])
  also have "\<dots> \<longleftrightarrow> (\<exists>es. map_of ?G r = Some es \<and> smurfWindow cp (sort_key timestamp es) 0 0)"
    using d by simp
  also have "\<dots> \<longleftrightarrow> smurfWindow cp (sort_key timestamp (filter (\<lambda>e. kf e = r) edges)) 0 0"
  proof (cases "r \<in> kf ` set edges")
    case True
    then show ?thesis by (simp add: m)
  next
    case False
    then have "filter (\<lambda>e. kf e = r) edges = []"
      by (auto simp: filter_empty_conv)
    with False show ?thesis by (simp add: m smurfWindow_empty)
  qed
  finally show ?thesis .
qed

text \<open>
  C5. An account is flagged for fan-in iff its incoming edges, sorted by timestamp, have a
  window \<open>i..j\<close> with \<open>timestamp[j] - timestamp[i] \<le> 72 h\<close> (both ends included) that
  holds at least ten distinct senders; and for fan-out likewise, with its outgoing edges
  and their receivers. So ten distinct counterparties in such a window flag the account,
  and an account with at most nine in every such window is not flagged.
\<close>

theorem smurfing_window_semantics:
  "(r \<in> set (fst (detectSmurfing edges))
      \<longleftrightarrow> (\<exists>i j. windowHit source (sort_key timestamp (filter (\<lambda>e. target e = r) edges)) i j))
   \<and> (r \<in> set (snd (detectSmurfing edges))
      \<longleftrightarrow> (\<exists>i j. windowHit target (sort_key timestamp (filter (\<lambda>e. source e = r) edges)) i j))"
  unfolding detectSmurfing_def groupEdges_split Let_def prod.case fst_conv snd_conv
  unfolding flagged_iff
  unfolding smurfWindow_from_start
  by (rule conjI; rule refl)


text \<open>Ten senders over exactly 72 hours flag X; the window is the whole list.\<close>

theorem smurfing_window_semantics_witness:
  "''X'' \<in> set (fst (detectSmurfing (graph_edges (buildGraph ten_senders_batch))))
   \<and> (\<exists>i j. windowHit source
         (sort_key timestamp
            (filter (\<lambda>e. target e = ''X'') (graph_edges (buildGraph ten_senders_batch)))) i j)
   \<and> ''X'' \<notin> set (snd (detectSmurfing (graph_edges (buildGraph ten_senders_batch))))
   \<and> timestamp (graph_edges (buildGraph ten_senders_batch) ! 9)
       - timestamp (graph_edges (buildGraph ten_senders_batch) ! 0) = SMURF_WINDOW_MS"
proof -
  have a: "''X'' \<in> set (fst (detectSmurfing (graph_edges (buildGraph ten_senders_batch))))"
    unfolding ten_senders_batch_def transfer_def by code_simp
  have b: "''X'' \<notin> set (snd (detectSmurfing (graph_edges (buildGraph ten_senders_batch))))"
    unfolding ten_senders_batch_def transfer_def by code_simp
  have c: "timestamp (graph_edges (buildGraph ten_senders_batch) ! 9)
       - timestamp (graph_edges (buildGraph ten_senders_batch) ! 0) = SMURF_WINDOW_MS"
    unfolding ten_senders_batch_def transfer_def by code_simp
  from a smurfing_window_semantics[of "''X''" "graph_edges (buildGraph ten_senders_batch)"]
  have "\<exists>i j. windowHit source
         (sort_key timestamp
            (filter (\<lambda>e. target e = ''X'') (graph_edges (buildGraph ten_senders_batch)))) i j"
    by blast
  with a b c show ?thesis by blast
qed

end
